theory Spec2Isabelle
  imports Complex_Main "HOL-Library.AList" "HOL-Library.Monad_Syntax"
begin

section \<open>Bracket notation: tokens, nodes and errors (src/tree/parse.ts)\<close>

text \<open>
  A JavaScript string is modelled as a \<^typ>\<open>string\<close>, one \<^typ>\<open>char\<close> per code unit
  (code units below 256). \<open>Feature\<close> is \<open>{ sign: "+" | "-"; name: string }\<close>, \<open>Node\<close> is
  \<open>{ label; features; id?; children }\<close>. The optional field \<open>id\<close> is an option:
  \<open>None\<close> is \<open>undefined\<close>.
\<close>

datatype sign = Plus | Minus

datatype feature = Feature (sign: sign) (name: string)

datatype node = Node (label: string) (features: "feature list")
  (id_opt: "string option") (children: "node list")

text \<open>\<open>Tok = { kind: "sym" | "lbr" | "rbr" | "quote"; value: string }\<close>.\<close>

datatype kind = KSym | KLbr | KRbr | KQuote

datatype tok = Tok (kind: kind) (val: string)

text \<open>
  One constructor per \<open>throw new Error(...)\<close> of the parser:
  \<open>"Unclosed quote"\<close>, \<open>"Unexpected end of input"\<close> (in \<open>eat\<close>),
  \<open>"Expected k, got k'"\<close> (in \<open>eat\<close>), \<open>"Unexpected end"\<close> (in \<open>parseNode\<close>),
  \<open>"Unclosed '['"\<close>, \<open>"Bad token"\<close> and \<open>"Extra input after tree"\<close>.
\<close>

datatype error =
    UnclosedQuote
  | UnexpectedEndOfInput
  | Expected kind kind
  | UnexpectedEnd
  | UnclosedBracket
  | BadToken
  | ExtraInput

subsection \<open>tokenize\<close>

text \<open>The regular expression \<open>/\s/\<close> on a code unit below 256.\<close>

definition is_space :: "char \<Rightarrow> bool" where
  "is_space c \<longleftrightarrow> c \<in> {CHR 0x09, CHR 0x0A, CHR 0x0B, CHR 0x0C, CHR 0x0D, CHR 0x20, CHR 0xA0}"

text \<open>The regular expression \<open>/\s|\[|\]/\<close>, which ends a symbol run.\<close>

definition is_delim :: "char \<Rightarrow> bool" where
  "is_delim c \<longleftrightarrow> is_space c \<or> c = CHR ''['' \<or> c = CHR '']''"

abbreviation dquote :: char where
  "dquote \<equiv> CHR 0x22"

text \<open>
  The \<open>while (i < src.length)\<close> loop of \<open>tokenize\<close>. The first argument is the source
  from index \<open>i\<close> on, the second is \<open>out\<close>.
\<close>

function tokenize_loop :: "string \<Rightarrow> tok list \<Rightarrow> error + tok list" where
  "tokenize_loop [] out = Inr out"
| "tokenize_loop (c # cs) out =
     (if is_space c then tokenize_loop cs out
      else if c = CHR ''['' then tokenize_loop cs (out @ [Tok KLbr [c]])
      else if c = CHR '']'' then tokenize_loop cs (out @ [Tok KRbr [c]])
      else if c = dquote then
        (let buf = takeWhile (\<lambda>d. d \<noteq> dquote) cs in
         case dropWhile (\<lambda>d. d \<noteq> dquote) cs of
           [] \<Rightarrow> Inl UnclosedQuote
         | _ # rest \<Rightarrow> tokenize_loop rest (out @ [Tok KSym buf]))
      else
        (let buf = takeWhile (\<lambda>d. \<not> is_delim d) (c # cs) in
         tokenize_loop (dropWhile (\<lambda>d. \<not> is_delim d) (c # cs)) (out @ [Tok KSym buf])))"
  by pat_completeness auto

lemma length_dropWhile_Cons:
  "dropWhile P cs = x # rest \<Longrightarrow> length rest < length cs"
proof -
  assume h: "dropWhile P cs = x # rest"
  have "length (dropWhile P cs) \<le> length cs"
    by (rule length_dropWhile_le)
  with h show ?thesis by simp
qed

termination tokenize_loop
proof (relation "measure (\<lambda>(src, out). length src)", goal_cases)
  case 1
  show ?case by simp
next
  case (2 c cs out)
  show ?case by simp
next
  case (3 c cs out)
  show ?case by simp
next
  case (4 c cs out)
  show ?case by simp
next
  case (5 c cs out buf x rest)
  then show ?case
    using length_dropWhile_Cons [of "\<lambda>d. d \<noteq> dquote" cs x rest]
    by simp
next
  case (6 c cs out buf)
  then have nd: "\<not> is_delim c"
    by (simp add: is_delim_def)
  have "length (dropWhile (\<lambda>d. \<not> is_delim d) cs) \<le> length cs"
    by (rule length_dropWhile_le)
  with nd show ?case by simp
qed

definition tokenize :: "string \<Rightarrow> error + tok list" where
  "tokenize src = tokenize_loop src []"

subsection \<open>parseTree: cursor primitives\<close>

text \<open>
  \<open>toks\<close> is fixed and the cursor \<open>p\<close> is threaded through: every function takes the
  cursor and returns the new one. \<open>peek\<close> is \<open>toks[p]\<close>, \<open>None\<close> when it is \<open>undefined\<close>.
\<close>

definition peek :: "tok list \<Rightarrow> nat \<Rightarrow> tok option" where
  "peek toks p = (if p < length toks then Some (toks ! p) else None)"

text \<open>\<open>eat(kind?)\<close>: the token at the cursor and the cursor after it.\<close>

definition eat :: "tok list \<Rightarrow> nat \<Rightarrow> kind option \<Rightarrow> error + (tok \<times> nat)" where
  "eat toks p k =
     (case peek toks p of
        None \<Rightarrow> Inl UnexpectedEndOfInput
      | Some t \<Rightarrow>
          (case k of
             None \<Rightarrow> Inr (t, p + 1)
           | Some k' \<Rightarrow> if kind t \<noteq> k' then Inl (Expected k' (kind t)) else Inr (t, p + 1)))"

text \<open>\<open>String.prototype.indexOf\<close> for one character: \<open>-1\<close> when it does not occur.\<close>

fun indexOf :: "string \<Rightarrow> char \<Rightarrow> int" where
  "indexOf [] c = - 1"
| "indexOf (d # ds) c =
     (if d = c then 0 else (let r = indexOf ds c in if r < 0 then - 1 else r + 1))"

record head =
  base :: string
  hfeatures :: "feature list"
  hid :: "string option"

definition parseFeaturesPart :: "string \<Rightarrow> head" where
  "parseFeaturesPart s =
     (let hash = indexOf s (CHR ''#'') in
      if hash \<ge> 0
      then \<lparr>base = take (nat hash) s, hfeatures = [], hid = Some (drop (nat (hash + 1)) s)\<rparr>
      else \<lparr>base = s, hfeatures = [], hid = None\<rparr>)"

text \<open>The test \<open>/^[+-]/.test(v)\<close>.\<close>

definition starts_with_sign :: "string \<Rightarrow> bool" where
  "starts_with_sign v \<longleftrightarrow> (case v of [] \<Rightarrow> False | c # _ \<Rightarrow> c = CHR ''+'' \<or> c = CHR ''-'')"

text \<open>\<open>v.startsWith("+") ? "+" : "-"\<close>.\<close>

definition sign_of :: "string \<Rightarrow> sign" where
  "sign_of v = (case v of [] \<Rightarrow> Minus | c # _ \<Rightarrow> if c = CHR ''+'' then Plus else Minus)"

text \<open>\<open>v.replace(/^[+-]/, "")\<close>.\<close>

definition strip_sign :: "string \<Rightarrow> string" where
  "strip_sign v = (if starts_with_sign v then tl v else v)"

text \<open>
  \<open>v.replace(/^"|"$/g, "")\<close>: a leading double quote is removed, then a double quote
  that ends what is left.
\<close>

definition strip_quotes :: "string \<Rightarrow> string" where
  "strip_quotes v =
     (let v1 = (case v of [] \<Rightarrow> [] | c # cs \<Rightarrow> if c = dquote then cs else v) in
      if v1 \<noteq> [] \<and> last v1 = dquote then butlast v1 else v1)"

text \<open>The look-ahead test \<open>maybe?.kind === "sym" && /^[+-]/.test(maybe.value)\<close>.\<close>

definition is_signed_sym :: "tok option \<Rightarrow> bool" where
  "is_signed_sym maybe \<longleftrightarrow>
     (case maybe of None \<Rightarrow> False | Some m \<Rightarrow> kind m = KSym \<and> starts_with_sign (val m))"

subsection \<open>parseTree: parseNode and its look-ahead loop\<close>

text \<open>
  \<open>parseNode\<close> at cursor \<open>p\<close>, and the \<open>while (true)\<close> loop of its bracketed branch
  (\<open>parseBody\<close>, with the arrays \<open>features\<close> and \<open>children\<close> built so far). The loop
  returns at \<open>break\<close>, with the cursor still on the token that stopped it.
\<close>

function parseNode :: "tok list \<Rightarrow> nat \<Rightarrow> error + (node \<times> nat)"
  and parseBody :: "tok list \<Rightarrow> nat \<Rightarrow> feature list \<Rightarrow> node list
    \<Rightarrow> error + (feature list \<times> node list \<times> nat)" where
  "parseNode toks p =
     (case peek toks p of
        None \<Rightarrow> Inl UnexpectedEnd
      | Some t \<Rightarrow>
          if kind t = KLbr then
            (case eat toks p (Some KLbr) of
               Inl e \<Rightarrow> Inl e
             | Inr (_, p1) \<Rightarrow>
                 (case eat toks p1 (Some KSym) of
                    Inl e \<Rightarrow> Inl e
                  | Inr (labelTok, p2) \<Rightarrow>
                      (let h = parseFeaturesPart (val labelTok) in
                       case parseBody toks p2 [] [] of
                         Inl e \<Rightarrow> Inl e
                       | Inr (fs, cs, p3) \<Rightarrow>
                           (case eat toks p3 (Some KRbr) of
                              Inl e \<Rightarrow> Inl e
                            | Inr (_, p4) \<Rightarrow> Inr (Node (base h) fs (hid h) cs, p4)))))
          else if kind t = KSym then
            (case eat toks p (Some KSym) of
               Inl e \<Rightarrow> Inl e
             | Inr (s, p1) \<Rightarrow>
                 (let h = parseFeaturesPart (val s) in
                  Inr (Node (base h) [] (hid h) [], p1)))
          else Inl BadToken)"
| "parseBody toks p fs cs =
     (case peek toks p of
        None \<Rightarrow> Inl UnclosedBracket
      | Some t2 \<Rightarrow>
          if kind t2 = KLbr then
            (let save = p in
             case eat toks p (Some KLbr) of
               Inl e \<Rightarrow> Inl e
             | Inr (_, p1) \<Rightarrow>
                 (let maybe = peek toks p1 in
                  if is_signed_sym maybe then
                    (case eat toks p1 (Some KSym) of
                       Inl e \<Rightarrow> Inl e
                     | Inr (featTok, p2) \<Rightarrow>
                         (let f = Feature (sign_of (val featTok)) (strip_sign (val featTok)) in
                          case eat toks p2 (Some KRbr) of
                            Inl e \<Rightarrow> Inl e
                          | Inr (_, p3) \<Rightarrow> parseBody toks p3 (fs @ [f]) cs))
                  else
                    (case parseNode toks save of
                       Inl e \<Rightarrow> Inl e
                     | Inr (c, p') \<Rightarrow> parseBody toks p' fs (cs @ [c]))))
          else if kind t2 = KSym then
            (case eat toks p (Some KSym) of
               Inl e \<Rightarrow> Inl e
             | Inr (leaf, p1) \<Rightarrow>
                 parseBody toks p1 fs (cs @ [Node (strip_quotes (val leaf)) [] None []]))
          else if kind t2 = KRbr then Inr (fs, cs, p)
          else Inr (fs, cs, p))"
  by pat_completeness auto

lemma eat_Inr_iff:
  "eat toks p k = Inr (t, p') \<longleftrightarrow>
     p < length toks \<and> p' = p + 1 \<and> t = toks ! p \<and> (\<forall>k'. k = Some k' \<longrightarrow> kind t = k')"
  by (auto simp: eat_def peek_def split: option.splits if_splits)

lemma parse_progress:
  "parseNode_parseBody_dom (Inl (toks, p)) \<Longrightarrow>
     (\<forall>n p'. parseNode toks p = Inr (n, p') \<longrightarrow> p < p')"
  "parseNode_parseBody_dom (Inr (toks, q, fs, cs)) \<Longrightarrow>
     (\<forall>fs' cs' q'. parseBody toks q fs cs = Inr (fs', cs', q') \<longrightarrow> q \<le> q')"
proof (induction toks p and toks q fs cs rule: parseNode_parseBody.pinduct)
  case (1 toks p)
  have ih: "p + 2 \<le> q'"
    if "p < length toks" "kind (toks ! p) = KLbr" "Suc p < length toks"
      "kind (toks ! Suc p) = KSym" "parseBody toks (Suc (Suc p)) [] [] = Inr (fs', cs', q')"
    for fs' cs' q'
    using 1(2) [of "toks ! p" "(toks ! p, Suc p)" "toks ! p" "Suc p"
        "(toks ! Suc p, Suc (Suc p))" "toks ! Suc p" "Suc (Suc p)"] that
    by (simp add: eat_Inr_iff peek_def)
  show ?case 
    apply (subst parseNode.psimps[OF 1(1)])
    using ih
    apply (auto split: option.splits sum.splits if_splits simp: Let_def eat_Inr_iff peek_def)
    done
next
  case (2 toks p fs cs)
  note ps = parseBody.psimps [OF 2(1)]
  show ?case
  proof (intro allI impI)
    fix fs' cs' q'
    assume eq: "parseBody toks p fs cs = Inr (fs', cs', q')"
    from eq ps have plt: "p < length toks"
      by (auto simp: peek_def split: if_splits)
    then have pk: "peek toks p = Some (toks ! p)"
      by (simp add: peek_def)
    consider (lbr) "kind (toks ! p) = KLbr" | (sym) "kind (toks ! p) = KSym"
      | (other) "kind (toks ! p) \<noteq> KLbr" "kind (toks ! p) \<noteq> KSym"
      by blast
    then show "p \<le> q'"
    proof cases
      case lbr
      have e1: "eat toks p (Some KLbr) = Inr (toks ! p, Suc p)"
        using plt lbr by (simp add: eat_Inr_iff)
      show ?thesis
      proof (cases "is_signed_sym (peek toks (Suc p))")
        case True
        from eq obtain ft where
          e2: "eat toks (Suc p) (Some KSym) = Inr (ft, Suc (Suc p))" and
          e3: "eat toks (Suc (Suc p)) (Some KRbr) = Inr (toks ! Suc (Suc p), Suc (Suc (Suc p)))" and
          rec: "parseBody toks (Suc (Suc (Suc p))) (fs @ [Feature (sign_of (val ft)) (strip_sign (val ft))]) cs
                 = Inr (fs', cs', q')"
          by (auto simp: ps pk lbr e1 True Let_def eat_Inr_iff split: sum.splits)
        from 2(2) [OF pk lbr refl e1 refl refl True e2 refl refl e3 refl] rec
        show ?thesis by fastforce
      next
        case False
        from eq obtain c p' where
          pn: "parseNode toks p = Inr (c, p')" and
          rec: "parseBody toks p' fs (cs @ [c]) = Inr (fs', cs', q')"
          by (auto simp: ps pk lbr e1 False Let_def split: sum.splits)
        from 2(3) [OF pk lbr refl e1 refl refl False] pn have "p < p'"
          by blast
        moreover from 2(4) [OF pk lbr refl e1 refl refl False pn refl] rec have "p' \<le> q'"
          by blast
        ultimately show ?thesis by simp
      qed
    next
      case sym
      then have nl: "kind (toks ! p) \<noteq> KLbr" by simp
      have e1: "eat toks p (Some KSym) = Inr (toks ! p, Suc p)"
        using plt sym by (simp add: eat_Inr_iff)
      from eq have rec: "parseBody toks (Suc p) fs
          (cs @ [Node (strip_quotes (val (toks ! p))) [] None []]) = Inr (fs', cs', q')"
        by (simp add: ps pk sym e1)
      from 2(5) [OF pk nl sym e1 refl] rec have "Suc p \<le> q'"
        by blast
      then show ?thesis by simp
    next
      case other
      with eq show ?thesis
        by (simp add: ps pk)
    qed
  qed
qed

termination parseNode
proof (relation "measure (\<lambda>x. case x of Inl (toks, p) \<Rightarrow> 2 * (length toks - p)
                              | Inr (toks, p, fs, cs) \<Rightarrow> 2 * (length toks - p) + 1)", goal_cases)
  case 1
  show ?case by simp
next
  case (2 toks p t b a p1 ba lt p2 h)
  then show ?case
    by (auto simp: eat_Inr_iff)
next
  case (3 toks p fs cs t2 save b a p1 maybe ba ft p2 f bb c p3)
  then show ?case
    by (auto simp: eat_Inr_iff)
next
  case (4 toks p fs cs t2 save b a p1 maybe)
  then show ?case
    by (auto simp: eat_Inr_iff)
next
  case (5 toks p fs cs t2 save b a p1 maybe ba c p')
  then have "p < p'"
    using parse_progress(1) [of toks p] by auto
  moreover from 5 have "p < length toks"
    by (auto simp: eat_Inr_iff)
  ultimately show ?case by simp
next
  case (6 toks p fs cs t2 b leaf p1)
  then show ?case
    by (auto simp: eat_Inr_iff)
qed

declare parseNode.simps [simp del] parseBody.simps [simp del]

text \<open>
  \<open>parseTree\<close>: tokenize, parse one node from cursor 0, and reject a cursor that has
  not reached \<open>toks.length\<close>.
\<close>

definition parseTree :: "string \<Rightarrow> error + node" where
  "parseTree src =
     (case tokenize src of
        Inl e \<Rightarrow> Inl e
      | Inr toks \<Rightarrow>
          (case parseNode toks 0 of
             Inl e \<Rightarrow> Inl e
           | Inr (rt, p) \<Rightarrow> if p \<noteq> length toks then Inl ExtraInput else Inr rt))"


section \<open>Layout (src/tree/layout.ts)\<close>

text \<open>
  \<open>Positioned\<close> extends \<open>Node\<close> with \<open>x\<close>, \<open>y\<close>, \<open>width\<close>, \<open>height\<close>. Numbers are
  rationals: every value the layout computes is an integer or half an integer. The
  back-reference \<open>parent\<close> is written once by \<open>clone\<close> and never read; the tree-shaped
  model leaves it out, and the store model below keeps it.
\<close>

datatype positioned = Positioned (plabel: string) (pfeatures: "feature list")
  (pid: "string option") (px: rat) (py: rat) (pwidth: rat) (pheight: rat)
  (pchildren: "positioned list")

definition NODE_W :: rat where "NODE_W = 36"
definition NODE_H :: rat where "NODE_H = 22"
definition H_GAP :: rat where "H_GAP = 14"
definition V_GAP :: rat where "V_GAP = 28"

text \<open>\<open>`${f.sign}${f.name}`\<close> and \<open>Array.prototype.join\<close>.\<close>

definition feature_text :: "feature \<Rightarrow> string" where
  "feature_text f = (case sign f of Plus \<Rightarrow> ''+'' | Minus \<Rightarrow> ''-'') @ name f"

fun join :: "string list \<Rightarrow> string \<Rightarrow> string" where
  "join [] sep = []"
| "join [s] sep = s"
| "join (s # t # ss) sep = s @ sep @ join (t # ss) sep"

text \<open>The text whose length \<open>measureLabel\<close> counts, from the label and the features.\<close>

definition label_text :: "string \<Rightarrow> feature list \<Rightarrow> string" where
  "label_text l fs =
     l @ (if length fs \<noteq> 0 then '' ['' @ join (map feature_text fs) '','' @ '']'' else [])"

definition measure_text :: "string \<Rightarrow> feature list \<Rightarrow> rat" where
  "measure_text l fs = max NODE_W (8 * of_nat (length (label_text l fs)) + 12)"

definition measureLabel :: "node \<Rightarrow> rat" where
  "measureLabel n = measure_text (label n) (features n)"

text \<open>\<open>clone\<close>: the spread \<open>...n\<close> copies label, features and id.\<close>

fun clone :: "node \<Rightarrow> positioned" where
  "clone (Node l fs i cs) =
     Positioned l fs i 0 0 (measureLabel (Node l fs i cs)) NODE_H (map clone cs)"

text \<open>
  \<open>firstWalk\<close> returns the node with the \<open>x\<close> it has written and the number it returns.
  \<open>firstWalk_each\<close> is the \<open>forEach\<close> over the children: index \<open>i\<close>,
  \<open>n.children.length\<close> and \<open>widthSum\<close> so far.
\<close>

fun firstWalk :: "positioned \<Rightarrow> positioned \<times> rat"
  and firstWalk_each :: "positioned list \<Rightarrow> nat \<Rightarrow> nat \<Rightarrow> rat \<Rightarrow> positioned list \<times> rat" where
  "firstWalk (Positioned l fs i x y w h cs) =
     (if length cs = 0 then (Positioned l fs i 0 y w h cs, w)
      else
        (let (cs', widthSum) = firstWalk_each cs 0 (length cs) 0 in
         (Positioned l fs i (widthSum / 2 - w / 2) y w h cs', max w widthSum)))"
| "firstWalk_each [] i len widthSum = ([], widthSum)"
| "firstWalk_each (c # cs) i len widthSum =
     (let (c', w) = firstWalk c;
          widthSum1 = widthSum + w;
          widthSum2 = (if int i < int len - 1 then widthSum1 + H_GAP else widthSum1);
          (cs', widthSum3) = firstWalk_each cs (i + 1) len widthSum2
      in (c' # cs', widthSum3))"

text \<open>
  \<open>secondWalk\<close>. \<open>secondWalk_each\<close> is the \<open>forEach\<close> over the children: \<open>done\<close> holds
  the children already walked (\<open>n.children[idx-1]\<close> is its last element), \<open>idx\<close> is
  \<open>length done\<close>. The source computes \<open>shift\<close> and \<open>cx\<close> and reads neither; the
  offset it passes down is \<open>ox + c.x - c.x + 0\<close>.
\<close>

fun secondWalk :: "positioned \<Rightarrow> rat \<Rightarrow> rat \<Rightarrow> positioned"
  and secondWalk_each :: "positioned list \<Rightarrow> positioned list \<Rightarrow> rat \<Rightarrow> rat \<Rightarrow> rat
    \<Rightarrow> positioned list" where
  "secondWalk (Positioned l fs i x y w h cs) ox oy =
     Positioned l fs i (x + ox) oy w h (secondWalk_each cs [] ox oy h)"
| "secondWalk_each [] done ox oy h = done"
| "secondWalk_each (c # cs) done ox oy h =
     (let idx = length done;
          shift = (if idx = 0 then 0 else px (last done) + pwidth (last done) + H_GAP - px c);
          cx = px c + shift;
          c' = secondWalk c (ox + px c - px c + (if idx = 0 then 0 else 0)) (oy + h + V_GAP)
      in secondWalk_each cs (done @ [c']) ox oy h)"

text \<open>
  The normalisation: \<open>visit\<close> folds \<open>Math.min\<close> over the tree in pre-order, from
  \<open>minX = Infinity\<close> (\<open>None\<close>); \<open>maxX\<close> and \<open>maxY\<close> are never read. \<open>shift\<close> subtracts
  \<open>dx\<close> from every \<open>x\<close>.
\<close>

definition min_acc :: "rat option \<Rightarrow> rat \<Rightarrow> rat option" where
  "min_acc minX v = (case minX of None \<Rightarrow> Some v | Some m \<Rightarrow> Some (min m v))"

fun visit :: "positioned \<Rightarrow> rat option \<Rightarrow> rat option" where
  "visit (Positioned l fs i x y w h cs) minX = fold visit cs (min_acc minX x)"

fun shift :: "positioned \<Rightarrow> rat \<Rightarrow> positioned" where
  "shift (Positioned l fs i x y w h cs) dx =
     Positioned l fs i (x - dx) y w h (map (\<lambda>c. shift c dx) cs)"

text \<open>
  \<open>layoutTree\<close>. \<open>visit\<close> never leaves \<open>minX\<close> at \<open>Infinity\<close> (lemma \<open>visit_Some\<close>), so
  the \<open>None\<close> branch is never taken.
\<close>

definition layoutTree :: "node \<Rightarrow> positioned" where
  "layoutTree rt =
     (let r = clone rt;
          (r1, totalW) = firstWalk r;
          r2 = secondWalk r1 0 0
      in case visit r2 None of
           None \<Rightarrow> r2
         | Some minX \<Rightarrow> shift r2 minX)"

text \<open>The nodes of a positioned tree in pre-order (document order).\<close>

fun preorder :: "positioned \<Rightarrow> positioned list" where
  "preorder (Positioned l fs i x y w h cs) =
     Positioned l fs i x y w h cs # concat (map preorder cs)"

text \<open>
  A JavaScript \<open>Map\<close> with string keys is an association list in insertion order:
  \<open>map.get\<close> is \<^const>\<open>map_of\<close>, and \<open>map.set\<close> is \<^const>\<open>AList.update\<close>, which
  replaces the value of a key in place and puts a new key last. The test \<open>if (n.id)\<close>
  holds for a string that is present and not empty.
\<close>




section \<open>Movement arcs (src/tree/render.ts)\<close>

text \<open>The record \<open>{ origin?: Positioned; traces: Positioned[] }\<close> of \<open>drawMovement\<close>.\<close>

record group =
  origin :: "positioned option"
  traces :: "positioned list"

text \<open>The body of the \<open>walk\<close> of \<open>drawMovement\<close> for one node, and the walk.\<close>

definition move_node :: "positioned \<Rightarrow> (string \<times> group) list \<Rightarrow> (string \<times> group) list" where
  "move_node n m =
     (case pid n of
        None \<Rightarrow> m
      | Some k \<Rightarrow>
          if k \<noteq> [] then
            (let isTrace = (plabel n = ''t'');
                 rec = (case map_of m k of None \<Rightarrow> \<lparr>origin = None, traces = []\<rparr> | Some r \<Rightarrow> r);
                 rec' = (if isTrace then rec\<lparr>traces := traces rec @ [n]\<rparr>
                         else rec\<lparr>origin := Some n\<rparr>)
             in AList.update k rec' m)
          else m)"

fun move_walk :: "positioned \<Rightarrow> (string \<times> group) list \<Rightarrow> (string \<times> group) list" where
  "move_walk (Positioned l fs i x y w h cs) m =
     fold move_walk cs (move_node (Positioned l fs i x y w h cs) m)"

text \<open>
  The element \<open>drawMovement\<close> appends for one trace: the path
  \<open>M x1 y1 C c1x c1y, c2x c2y, x2 y2\<close> (the fields \<open>d_x1\<close> to \<open>d_y2\<close>) with its class
  and its \<open>marker-end\<close>.
\<close>

record curve =
  d_x1 :: rat
  d_y1 :: rat
  d_c1x :: rat
  d_c1y :: rat
  d_c2x :: rat
  d_c2y :: rat
  d_x2 :: rat
  d_y2 :: rat
  cls :: string
  marker_end :: string

definition move_path :: "positioned \<Rightarrow> positioned \<Rightarrow> curve" where
  "move_path org t =
     (let ax = px org + pwidth org / 2;
          ay = py org;
          bx = px t + pwidth t / 2;
          bY = py t + pheight t
      in \<lparr>d_x1 = ax, d_y1 = ay, d_c1x = ax, d_c1y = ay - 40, d_c2x = bx, d_c2y = bY + 40,
          d_x2 = bx, d_y2 = bY, cls = ''ling-tree-move'',
          marker_end = ''url(#ling-tree-arrow)''\<rparr>)"

text \<open>
  \<open>drawMovement\<close>: \<open>svg\<close> is the list of elements appended so far. The
  \<open>map.forEach\<close> returns at once for a group without origin.
\<close>

definition draw_group :: "string \<times> group \<Rightarrow> curve list \<Rightarrow> curve list" where
  "draw_group kg svg =
     (case origin (snd kg) of
        None \<Rightarrow> svg
      | Some org \<Rightarrow> fold (\<lambda>t acc. acc @ [move_path org t]) (traces (snd kg)) svg)"

definition drawMovement :: "curve list \<Rightarrow> positioned \<Rightarrow> curve list" where
  "drawMovement svg rt = fold draw_group (move_walk rt []) svg"

text \<open>The trace nodes and the origin nodes of an identifier in a list of nodes.\<close>

definition trace_nodes :: "string \<Rightarrow> positioned list \<Rightarrow> positioned list" where
  "trace_nodes k ns = filter (\<lambda>n. pid n = Some k \<and> plabel n = ''t'') ns"

definition origin_nodes :: "string \<Rightarrow> positioned list \<Rightarrow> positioned list" where
  "origin_nodes k ns = filter (\<lambda>n. pid n = Some k \<and> plabel n \<noteq> ''t'') ns"



text \<open>The paths that \<open>drawMovement\<close> appends for one entry of the map.\<close>

definition group_paths :: "string \<times> group \<Rightarrow> curve list" where
  "group_paths kg = (case origin (snd kg) of None \<Rightarrow> [] | Some org \<Rightarrow> map (move_path org) (traces (snd kg)))"

text \<open>
  The tree with every \<open>x\<close> and \<open>y\<close> reset to 0, and the \<open>Node\<close> a positioned tree
  extends.
\<close>

fun box_tree :: "positioned \<Rightarrow> positioned" where
  "box_tree (Positioned l fs i x y w h cs) = Positioned l fs i 0 0 w h (map box_tree cs)"

fun erase :: "positioned \<Rightarrow> node" where
  "erase (Positioned l fs i x y w h cs) = Node l fs i (map erase cs)"

text \<open>What a node shows of its box: label, features, width and height.\<close>

definition box_of :: "positioned \<Rightarrow> string \<times> feature list \<times> rat \<times> rat" where
  "box_of p = (plabel p, pfeatures p, pwidth p, pheight p)"

section \<open>Layout over a store\<close>

text \<open>
  \<open>layoutTree\<close> again, with the objects in a store, for what depends on which object
  is written. A reference is an index into the store; \<open>new\<close> appends a cell. A cell is
  a \<open>features\<close> array or a node object; the geometry fields \<open>x\<close>, \<open>y\<close>, \<open>width\<close>,
  \<open>height\<close>, \<open>parent\<close> are present in a \<open>Positioned\<close> and absent (\<open>None\<close>) in a plain
  \<open>Node\<close>. The spread \<open>...n\<close> copies the reference to the features array, not the array.
  The recursion follows the references of the store, so every function takes fuel; a
  missing or ill-typed object, or no fuel, gives \<open>None\<close>.
\<close>

type_synonym ref = nat

record geom =
  g_x :: rat
  g_y :: rat
  g_width :: rat
  g_height :: rat
  g_parent :: "ref option"

record hnode =
  h_label :: string
  h_features :: ref
  h_id :: "string option"
  h_children :: "ref list"
  h_geom :: "geom option"

datatype cell = FeatureArray "feature list" | NodeCell hnode

type_synonym store = "cell list"

text \<open>Reading a node object or a features array, and the writes \<open>n.x = ...\<close>, \<open>p.children = ...\<close>.\<close>

definition node_cell :: "store \<Rightarrow> ref \<Rightarrow> hnode option" where
  "node_cell h a =
     (if a < length h then (case h ! a of NodeCell nd \<Rightarrow> Some nd | FeatureArray fs \<Rightarrow> None)
      else None)"

definition feature_array :: "store \<Rightarrow> ref \<Rightarrow> feature list option" where
  "feature_array h a =
     (if a < length h then (case h ! a of FeatureArray fs \<Rightarrow> Some fs | NodeCell nd \<Rightarrow> None)
      else None)"

definition get_geom :: "store \<Rightarrow> ref \<Rightarrow> geom option" where
  "get_geom h a = (case node_cell h a of None \<Rightarrow> None | Some nd \<Rightarrow> h_geom nd)"

definition put_geom :: "store \<Rightarrow> ref \<Rightarrow> geom \<Rightarrow> store" where
  "put_geom h a g =
     (case node_cell h a of None \<Rightarrow> h | Some nd \<Rightarrow> h[a := NodeCell (nd\<lparr>h_geom := Some g\<rparr>)])"

definition put_children :: "store \<Rightarrow> ref \<Rightarrow> ref list \<Rightarrow> store" where
  "put_children h a cs =
     (case node_cell h a of None \<Rightarrow> h | Some nd \<Rightarrow> h[a := NodeCell (nd\<lparr>h_children := cs\<rparr>)])"

definition h_measureLabel :: "store \<Rightarrow> hnode \<Rightarrow> rat option" where
  "h_measureLabel h nd =
     (case feature_array h (h_features nd) of
        None \<Rightarrow> None
      | Some fs \<Rightarrow> Some (measure_text (h_label nd) fs))"

text \<open>\<open>clone\<close>: the new object is allocated with \<open>children: []\<close>, then its children are cloned and assigned.\<close>

fun h_clone :: "nat \<Rightarrow> store \<Rightarrow> ref \<Rightarrow> ref option \<Rightarrow> (store \<times> ref) option"
  and h_clone_each :: "nat \<Rightarrow> store \<Rightarrow> ref list \<Rightarrow> ref \<Rightarrow> (store \<times> ref list) option" where
  "h_clone 0 h n parent = None"
| "h_clone (Suc fuel) h n parent =
     do {
       nd \<leftarrow> node_cell h n;
       w \<leftarrow> h_measureLabel h nd;
       let p = length h;
       let h1 = h @ [NodeCell (nd\<lparr>h_children := [],
                 h_geom := Some \<lparr>g_x = 0, g_y = 0, g_width = w, g_height = NODE_H,
                                 g_parent = parent\<rparr>\<rparr>)];
       (h2, cs) \<leftarrow> h_clone_each fuel h1 (h_children nd) p;
       Some (put_children h2 p cs, p)
     }"
| "h_clone_each fuel h [] p = Some (h, [])"
| "h_clone_each fuel h (c # cs) p =
     do {
       (h1, c') \<leftarrow> h_clone fuel h c (Some p);
       (h2, cs') \<leftarrow> h_clone_each fuel h1 cs p;
       Some (h2, c' # cs')
     }"

text \<open>\<open>firstWalk\<close>, \<open>secondWalk\<close>, \<open>visit\<close> and \<open>shift\<close>, reading and writing the store.\<close>

fun h_firstWalk :: "nat \<Rightarrow> store \<Rightarrow> ref \<Rightarrow> (store \<times> rat) option"
  and h_firstWalk_each :: "nat \<Rightarrow> store \<Rightarrow> ref list \<Rightarrow> nat \<Rightarrow> nat \<Rightarrow> rat
    \<Rightarrow> (store \<times> rat) option" where
  "h_firstWalk 0 h n = None"
| "h_firstWalk (Suc fuel) h n =
     do {
       nd \<leftarrow> node_cell h n;
       g \<leftarrow> h_geom nd;
       if length (h_children nd) = 0 then Some (put_geom h n (g\<lparr>g_x := 0\<rparr>), g_width g)
       else do {
         (h1, widthSum) \<leftarrow> h_firstWalk_each fuel h (h_children nd) 0 (length (h_children nd)) 0;
         g1 \<leftarrow> get_geom h1 n;
         Some (put_geom h1 n (g1\<lparr>g_x := widthSum / 2 - g_width g1 / 2\<rparr>),
               max (g_width g1) widthSum)
       }
     }"
| "h_firstWalk_each fuel h [] i len widthSum = Some (h, widthSum)"
| "h_firstWalk_each fuel h (c # cs) i len widthSum =
     do {
       (h1, w) \<leftarrow> h_firstWalk fuel h c;
       let widthSum1 = widthSum + w;
       let widthSum2 = (if int i < int len - 1 then widthSum1 + H_GAP else widthSum1);
       h_firstWalk_each fuel h1 cs (i + 1) len widthSum2
     }"

fun h_secondWalk :: "nat \<Rightarrow> store \<Rightarrow> ref \<Rightarrow> rat \<Rightarrow> rat \<Rightarrow> store option"
  and h_secondWalk_each :: "nat \<Rightarrow> store \<Rightarrow> ref \<Rightarrow> ref list \<Rightarrow> rat \<Rightarrow> rat \<Rightarrow> store option" where
  "h_secondWalk 0 h n ox oy = None"
| "h_secondWalk (Suc fuel) h n ox oy =
     do {
       g \<leftarrow> get_geom h n;
       let h1 = put_geom h n (g\<lparr>g_x := g_x g + ox, g_y := oy\<rparr>);
       nd \<leftarrow> node_cell h1 n;
       h_secondWalk_each fuel h1 n (h_children nd) ox oy
     }"
| "h_secondWalk_each fuel h n [] ox oy = Some h"
| "h_secondWalk_each fuel h n (c # cs) ox oy =
     do {
       gc \<leftarrow> get_geom h c;
       gn \<leftarrow> get_geom h n;
       h1 \<leftarrow> h_secondWalk fuel h c (ox + g_x gc - g_x gc + 0) (oy + g_height gn + V_GAP);
       h_secondWalk_each fuel h1 n cs ox oy
     }"

fun h_visit :: "nat \<Rightarrow> store \<Rightarrow> ref \<Rightarrow> rat option \<Rightarrow> rat option option"
  and h_visit_each :: "nat \<Rightarrow> store \<Rightarrow> ref list \<Rightarrow> rat option \<Rightarrow> rat option option" where
  "h_visit 0 h n minX = None"
| "h_visit (Suc fuel) h n minX =
     do {
       g \<leftarrow> get_geom h n;
       nd \<leftarrow> node_cell h n;
       h_visit_each fuel h (h_children nd) (min_acc minX (g_x g))
     }"
| "h_visit_each fuel h [] minX = Some minX"
| "h_visit_each fuel h (c # cs) minX =
     do {
       minX1 \<leftarrow> h_visit fuel h c minX;
       h_visit_each fuel h cs minX1
     }"

fun h_shift :: "nat \<Rightarrow> store \<Rightarrow> ref \<Rightarrow> rat \<Rightarrow> store option"
  and h_shift_each :: "nat \<Rightarrow> store \<Rightarrow> ref list \<Rightarrow> rat \<Rightarrow> store option" where
  "h_shift 0 h n dx = None"
| "h_shift (Suc fuel) h n dx =
     do {
       g \<leftarrow> get_geom h n;
       let h1 = put_geom h n (g\<lparr>g_x := g_x g - dx\<rparr>);
       nd \<leftarrow> node_cell h1 n;
       h_shift_each fuel h1 (h_children nd) dx
     }"
| "h_shift_each fuel h [] dx = Some h"
| "h_shift_each fuel h (c # cs) dx =
     do {
       h1 \<leftarrow> h_shift fuel h c dx;
       h_shift_each fuel h1 cs dx
     }"

definition h_layoutTree :: "nat \<Rightarrow> store \<Rightarrow> ref \<Rightarrow> (store \<times> ref) option" where
  "h_layoutTree fuel h rt =
     do {
       (h1, r) \<leftarrow> h_clone fuel h rt None;
       (h2, totalW) \<leftarrow> h_firstWalk fuel h1 r;
       h3 \<leftarrow> h_secondWalk fuel h2 r 0 0;
       minX \<leftarrow> h_visit fuel h3 r None;
       case minX of
         None \<Rightarrow> None
       | Some dx \<Rightarrow> do { h4 \<leftarrow> h_shift fuel h3 r dx; Some (h4, r) }
     }"

text \<open>
  A cell without its \<open>x\<close> and \<open>y\<close>; a store that differs from another only in the
  \<open>x\<close> and \<open>y\<close> of cells from \<open>L\<close> on; a store in which the nodes from \<open>L\<close> on have
  their children from \<open>L\<close> on.
\<close>

definition skel :: "cell \<Rightarrow> cell" where
  "skel c =
     (case c of
        FeatureArray fs \<Rightarrow> FeatureArray fs
      | NodeCell nd \<Rightarrow>
          NodeCell (nd\<lparr>h_geom := map_option (\<lambda>g. g\<lparr>g_x := 0, g_y := 0\<rparr>) (h_geom nd)\<rparr>))"

definition only_above :: "nat \<Rightarrow> store \<Rightarrow> store \<Rightarrow> bool" where
  "only_above L h h' \<longleftrightarrow> map skel h' = map skel h \<and> take L h' = take L h"

definition fresh_closed :: "nat \<Rightarrow> store \<Rightarrow> bool" where
  "fresh_closed L h \<longleftrightarrow>
     (\<forall>a < length h. L \<le> a \<longrightarrow>
        (case h ! a of FeatureArray fs \<Rightarrow> True
         | NodeCell nd \<Rightarrow> list_all (\<lambda>c. L \<le> c) (h_children nd)))"

text \<open>What \<open>clone\<close> guarantees of the store it returns.\<close>

definition allocates :: "store \<Rightarrow> store \<Rightarrow> bool" where
  "allocates h h' \<longleftrightarrow> take (length h) h' = h \<and> fresh_closed (length h) h'"

text \<open>
  The height of a tree; \<open>node_at\<close>: the store holds the tree \<open>t\<close> at a reference;
  \<open>pos_at\<close>: it holds at \<open>r\<close>, in cells from \<open>L\<close> on, a positioned copy of \<open>t\<close> with the
  width and height of \<open>clone\<close> and the given parent.
\<close>

fun node_height :: "node \<Rightarrow> nat" where
  "node_height (Node l fs i cs) = Suc (fold max (map node_height cs) 0)"

fun node_at :: "store \<Rightarrow> ref \<Rightarrow> node \<Rightarrow> bool" where
  "node_at h a (Node l fs i cs) =
     (case node_cell h a of
        None \<Rightarrow> False
      | Some nd \<Rightarrow>
          h_label nd = l \<and> feature_array h (h_features nd) = Some fs \<and> h_id nd = i
          \<and> list_all2 (node_at h) (h_children nd) cs)"

fun pos_at :: "nat \<Rightarrow> store \<Rightarrow> ref option \<Rightarrow> ref \<Rightarrow> node \<Rightarrow> bool" where
  "pos_at L h par r (Node l fs i cs) =
     (L \<le> r \<and>
      (case node_cell h r of
         None \<Rightarrow> False
       | Some nd \<Rightarrow>
           h_label nd = l \<and> feature_array h (h_features nd) = Some fs \<and> h_id nd = i
           \<and> (case h_geom nd of
                 None \<Rightarrow> False
               | Some g \<Rightarrow> g_width g = measure_text l fs \<and> g_height g = NODE_H \<and> g_parent g = par)
           \<and> list_all2 (pos_at L h (Some r)) (h_children nd) cs))"

section \<open>Properties of the parser\<close>

lemma parseNode_bound:
  "parseNode toks p = Inr (n, p') \<Longrightarrow> p' \<le> length toks"
  by (subst (asm) parseNode.simps)
     (auto simp: eat_Inr_iff Let_def split: option.splits if_splits sum.splits)

text \<open>
  C7. \<open>parseTree\<close> returns a tree only when \<open>parseNode\<close> from cursor 0 consumes the
  whole token stream: if one node is parsed and tokens remain, \<open>parseTree\<close> fails with
  \<open>"Extra input after tree"\<close>; and whenever it returns a node, the cursor after that
  node is \<open>toks.length\<close>. \<open>parseTree("[A] [B]")\<close> fails with that error.
\<close>

theorem parseTree_trailing_input:
  "(\<forall>toks n p. tokenize src = Inr toks \<and> parseNode toks 0 = Inr (n, p) \<and> p < length toks
       \<longrightarrow> parseTree src = Inl ExtraInput)
   \<and> (\<forall>n. parseTree src = Inr n
       \<longrightarrow> (\<exists>toks. tokenize src = Inr toks \<and> parseNode toks 0 = Inr (n, length toks)))
   \<and> parseTree ''[A] [B]'' = Inl ExtraInput"
proof (intro conjI allI impI)
  fix toks n p
  assume "tokenize src = Inr toks \<and> parseNode toks 0 = Inr (n, p) \<and> p < length toks"
  then show "parseTree src = Inl ExtraInput"
    by (simp add: parseTree_def)
next
  fix n
  assume "parseTree src = Inr n"
  then show "\<exists>toks. tokenize src = Inr toks \<and> parseNode toks 0 = Inr (n, length toks)"
    by (auto simp: parseTree_def split: sum.splits if_splits)
next
  show "parseTree ''[A] [B]'' = Inl ExtraInput"
    by code_simp
qed

theorem parseTree_trailing_input_witness:
  "tokenize ''[A] [B]'' = Inr [Tok KLbr ''['', Tok KSym ''A'', Tok KRbr '']'',
       Tok KLbr ''['', Tok KSym ''B'', Tok KRbr '']'']
   \<and> parseNode [Tok KLbr ''['', Tok KSym ''A'', Tok KRbr '']'',
       Tok KLbr ''['', Tok KSym ''B'', Tok KRbr '']''] 0 = Inr (Node ''A'' [] None [], 3)
   \<and> parseTree ''[A] [B]'' = Inl ExtraInput
   \<and> parseTree ''[A]'' = Inr (Node ''A'' [] None [])
   \<and> tokenize ''[A]'' = Inr [Tok KLbr ''['', Tok KSym ''A'', Tok KRbr '']'']
   \<and> parseNode [Tok KLbr ''['', Tok KSym ''A'', Tok KRbr '']''] 0 = Inr (Node ''A'' [] None [], 3)"
proof -
  have a: "tokenize ''[A] [B]'' = Inr [Tok KLbr ''['', Tok KSym ''A'', Tok KRbr '']'',
       Tok KLbr ''['', Tok KSym ''B'', Tok KRbr '']'']"
    by code_simp
  have b: "parseNode [Tok KLbr ''['', Tok KSym ''A'', Tok KRbr '']'',
       Tok KLbr ''['', Tok KSym ''B'', Tok KRbr '']''] 0 = Inr (Node ''A'' [] None [], 3)"
    by code_simp
  have c: "parseTree ''[A]'' = Inr (Node ''A'' [] None [])"
    by code_simp
  have d: "tokenize ''[A]'' = Inr [Tok KLbr ''['', Tok KSym ''A'', Tok KRbr '']'']"
    by code_simp
  from parseTree_trailing_input [of "''[A] [B]''"] a b
  have e: "parseTree ''[A] [B]'' = Inl ExtraInput"
    by simp
  from parseTree_trailing_input [of "''[A]''"] c d
  have f: "parseNode [Tok KLbr ''['', Tok KSym ''A'', Tok KRbr '']''] 0 = Inr (Node ''A'' [] None [], 3)"
    by simp
  from a b c d e f show ?thesis by simp
qed

text \<open>
  C4. In the loop of a bracketed node, at an open bracket: when the token after it is a
  symbol whose first character is \<open>+\<close> or \<open>-\<close>, the loop records the feature (the sign,
  and the name without it), requires a close bracket next (failing with the error of
  \<open>eat\<close> otherwise) and goes on after it; in every other case it parses a child node
  from the open bracket itself and appends it. \<open>parseTree("[CP[+WH][-Q] [C did]]")\<close> is
  the tree of the claim.
\<close>

theorem feature_group_or_child:
  "(p < length toks \<and> kind (toks ! p) = KLbr \<longrightarrow>
     (\<forall>c nm. Suc p < length toks \<and> kind (toks ! Suc p) = KSym \<and> val (toks ! Suc p) = c # nm
          \<and> (c = CHR ''+'' \<or> c = CHR ''-'') \<longrightarrow>
        parseBody toks p fs cs =
          (if p + 2 < length toks then
             if kind (toks ! (p + 2)) = KRbr
             then parseBody toks (p + 3)
                    (fs @ [Feature (if c = CHR ''+'' then Plus else Minus) nm]) cs
             else Inl (Expected KRbr (kind (toks ! (p + 2))))
           else Inl UnexpectedEndOfInput))
   \<and> (\<not> (Suc p < length toks \<and> kind (toks ! Suc p) = KSym
          \<and> (\<exists>c nm. val (toks ! Suc p) = c # nm \<and> (c = CHR ''+'' \<or> c = CHR ''-''))) \<longrightarrow>
        parseBody toks p fs cs =
          (case parseNode toks p of
             Inl e \<Rightarrow> Inl e
           | Inr (ch, p') \<Rightarrow> parseBody toks p' fs (cs @ [ch]))))
   \<and> parseTree ''[CP[+WH][-Q] [C did]]'' =
       Inr (Node ''CP'' [Feature Plus ''WH'', Feature Minus ''Q''] None
             [Node ''C'' [] None [Node ''did'' [] None []]])"
proof (intro impI conjI allI)
  fix c nm
  assume h: "p < length toks \<and> kind (toks ! p) = KLbr"
    and s: "Suc p < length toks \<and> kind (toks ! Suc p) = KSym \<and> val (toks ! Suc p) = c # nm
          \<and> (c = CHR ''+'' \<or> c = CHR ''-'')"
  from h have e1: "eat toks p (Some KLbr) = Inr (toks ! p, Suc p)"
    by (simp add: eat_Inr_iff)
  from h have pk: "peek toks p = Some (toks ! p)"
    by (simp add: peek_def)
  from s have sg: "is_signed_sym (peek toks (Suc p))"
    by (auto simp: is_signed_sym_def peek_def starts_with_sign_def)
  from s have e2: "eat toks (Suc p) (Some KSym) = Inr (toks ! Suc p, Suc (Suc p))"
    by (simp add: eat_Inr_iff)
  from s have f: "Feature (sign_of (val (toks ! Suc p))) (strip_sign (val (toks ! Suc p)))
      = Feature (if c = CHR ''+'' then Plus else Minus) nm"
    by (auto simp: sign_of_def strip_sign_def starts_with_sign_def)
  have e3: "eat toks (Suc (Suc p)) (Some KRbr) =
      (if p + 2 < length toks then
         if kind (toks ! (p + 2)) = KRbr then Inr (toks ! (p + 2), p + 3)
         else Inl (Expected KRbr (kind (toks ! (p + 2))))
       else Inl UnexpectedEndOfInput)"
    by (simp add: eat_def peek_def)
  show "parseBody toks p fs cs =
          (if p + 2 < length toks then
             if kind (toks ! (p + 2)) = KRbr
             then parseBody toks (p + 3)
                    (fs @ [Feature (if c = CHR ''+'' then Plus else Minus) nm]) cs
             else Inl (Expected KRbr (kind (toks ! (p + 2))))
           else Inl UnexpectedEndOfInput)"
    using h by (subst parseBody.simps) (simp add: pk e1 sg e2 f e3)
next
  assume h: "p < length toks \<and> kind (toks ! p) = KLbr"
    and s: "\<not> (Suc p < length toks \<and> kind (toks ! Suc p) = KSym
          \<and> (\<exists>c nm. val (toks ! Suc p) = c # nm \<and> (c = CHR ''+'' \<or> c = CHR ''-'')))"
  from h have e1: "eat toks p (Some KLbr) = Inr (toks ! p, Suc p)"
    by (simp add: eat_Inr_iff)
  from h have pk: "peek toks p = Some (toks ! p)"
    by (simp add: peek_def)
  from s have sg: "\<not> is_signed_sym (peek toks (Suc p))"
    by (auto simp: is_signed_sym_def peek_def starts_with_sign_def split: list.splits)
  show "parseBody toks p fs cs =
          (case parseNode toks p of
             Inl e \<Rightarrow> Inl e
           | Inr (ch, p') \<Rightarrow> parseBody toks p' fs (cs @ [ch]))"
    using h by (subst parseBody.simps) (simp add: pk e1 sg)
next
  show "parseTree ''[CP[+WH][-Q] [C did]]'' =
       Inr (Node ''CP'' [Feature Plus ''WH'', Feature Minus ''Q''] None
             [Node ''C'' [] None [Node ''did'' [] None []]])"
    by code_simp
qed

theorem feature_group_or_child_witness:
  "parseBody [Tok KLbr ''['', Tok KSym ''CP'', Tok KLbr ''['', Tok KSym ''+WH'', Tok KRbr '']'',
        Tok KLbr ''['', Tok KSym ''C'', Tok KSym ''did'', Tok KRbr '']'', Tok KRbr '']''] 2 [] []
     = parseBody [Tok KLbr ''['', Tok KSym ''CP'', Tok KLbr ''['', Tok KSym ''+WH'', Tok KRbr '']'',
        Tok KLbr ''['', Tok KSym ''C'', Tok KSym ''did'', Tok KRbr '']'', Tok KRbr '']''] 5
        [Feature Plus ''WH''] []
   \<and> parseBody [Tok KLbr ''['', Tok KSym ''CP'', Tok KLbr ''['', Tok KSym ''+WH'', Tok KRbr '']'',
        Tok KLbr ''['', Tok KSym ''C'', Tok KSym ''did'', Tok KRbr '']'', Tok KRbr '']''] 5
        [Feature Plus ''WH''] []
     = parseBody [Tok KLbr ''['', Tok KSym ''CP'', Tok KLbr ''['', Tok KSym ''+WH'', Tok KRbr '']'',
        Tok KLbr ''['', Tok KSym ''C'', Tok KSym ''did'', Tok KRbr '']'', Tok KRbr '']''] 9
        [Feature Plus ''WH''] [Node ''C'' [] None [Node ''did'' [] None []]]"
proof -
  let ?T = "[Tok KLbr ''['', Tok KSym ''CP'', Tok KLbr ''['', Tok KSym ''+WH'', Tok KRbr '']'',
        Tok KLbr ''['', Tok KSym ''C'', Tok KSym ''did'', Tok KRbr '']'', Tok KRbr '']'']"
  have pn: "parseNode ?T 5 = Inr (Node ''C'' [] None [Node ''did'' [] None []], 9)"
    by code_simp
  have a: "parseBody ?T 2 [] [] = parseBody ?T 5 [Feature Plus ''WH''] []"
    using feature_group_or_child [of 2 ?T "[]" "[]"] by simp
  have b: "parseBody ?T 5 [Feature Plus ''WH''] []
     = parseBody ?T 9 [Feature Plus ''WH''] [Node ''C'' [] None [Node ''did'' [] None []]]"
    using feature_group_or_child [of 5 ?T "[Feature Plus ''WH'']" "[]"] pn by simp
  from a b show ?thesis by simp
qed

text \<open>
  C2. The claim fails on the bare-leaf path: a symbol that is a direct child in a
  node's body is pushed as \<open>{ label: leaf.value.replace(...), features: [], children: [] }\<close>,
  without \<open>parseFeaturesPart\<close>, so \<open>t#wh\<close> inside brackets keeps the label \<open>t#wh\<close>
  and gets no identifier.
\<close>

theorem bare_leaf_keeps_hash:
  "parseTree ''[A t#wh]'' = Inr (Node ''A'' [] None [Node ''t#wh'' [] None []])"
  by code_simp




section \<open>Properties of movement resolution\<close>

lemma move_walk_fold: "move_walk n m = fold move_node (preorder n) m"
proof (induction n m rule: move_walk.induct)
  case (1 l fs i x y w h cs m)
  have "fold move_walk cs m' = fold move_node (concat (map preorder cs)) m'" for m'
    using 1
  proof (induction cs arbitrary: m')
    case Nil
    show ?case by simp
  next
    case (Cons c cs)
    then show ?case by simp
  qed
  then show ?case by simp
qed

lemma map_of_move_node:
  "map_of (move_node n m) k =
     (if pid n = Some k \<and> k \<noteq> [] then
        Some (let r = (case map_of m k of None \<Rightarrow> \<lparr>origin = None, traces = []\<rparr> | Some r \<Rightarrow> r) in
              if plabel n = ''t'' then r\<lparr>traces := traces r @ [n]\<rparr> else r\<lparr>origin := Some n\<rparr>)
      else map_of m k)"
  by (auto simp: move_node_def update_conv' Let_def split: option.splits)

lemma distinct_move_node: "distinct (map fst m) \<Longrightarrow> distinct (map fst (move_node n m))"
  by (simp add: move_node_def distinct_update Let_def split: option.splits)

lemma distinct_fold_move_node:
  "distinct (map fst m) \<Longrightarrow> distinct (map fst (fold move_node ns m))"
  by (induction ns arbitrary: m) (simp_all add: distinct_move_node)

lemma fold_move_node:
  "map_of (fold move_node ns []) k =
     (if k \<noteq> [] \<and> (\<exists>n \<in> set ns. pid n = Some k) then
        Some \<lparr>origin = (if origin_nodes k ns = [] then None else Some (last (origin_nodes k ns))),
              traces = trace_nodes k ns\<rparr>
      else None)"
proof (induction ns rule: rev_induct)
  case Nil
  show ?case by simp
next
  case (snoc n ns)
  then show ?case
    by (auto simp: map_of_move_node trace_nodes_def origin_nodes_def Let_def)
qed

text \<open>
  C5. The walk of \<open>drawMovement\<close> handles the nodes once each, in pre-order. A node
  with a non-empty identifier and label \<open>t\<close> is appended to the traces of the group of
  its identifier (a new group when there is none); one whose label is not \<open>t\<close>
  replaces the origin of that group; no other group changes. So, after the walk, the group
  of \<open>k\<close> exists exactly when some node carries \<open>k\<close>, its traces are the trace nodes of
  \<open>k\<close> in pre-order and its origin is the last non-trace node of \<open>k\<close> in pre-order.
\<close>

theorem movement_resolution:
  "move_walk rt [] = fold move_node (preorder rt) []
   \<and> (\<forall>n m k. pid n = Some k \<and> k \<noteq> [] \<and> plabel n = ''t'' \<longrightarrow>
        map_of (move_node n m) k =
          Some (case map_of m k of
                  None \<Rightarrow> \<lparr>origin = None, traces = [n]\<rparr>
                | Some g \<Rightarrow> g\<lparr>traces := traces g @ [n]\<rparr>))
   \<and> (\<forall>n m k. pid n = Some k \<and> k \<noteq> [] \<and> plabel n \<noteq> ''t'' \<longrightarrow>
        map_of (move_node n m) k =
          Some (case map_of m k of
                  None \<Rightarrow> \<lparr>origin = Some n, traces = []\<rparr>
                | Some g \<Rightarrow> g\<lparr>origin := Some n\<rparr>))
   \<and> (\<forall>n m k. pid n \<noteq> Some k \<longrightarrow> map_of (move_node n m) k = map_of m k)
   \<and> distinct (map fst (move_walk rt []))
   \<and> (\<forall>k. map_of (move_walk rt []) k =
        (if k \<noteq> [] \<and> (\<exists>n \<in> set (preorder rt). pid n = Some k) then
           Some \<lparr>origin = (if origin_nodes k (preorder rt) = [] then None
                            else Some (last (origin_nodes k (preorder rt)))),
                 traces = trace_nodes k (preorder rt)\<rparr>
         else None))"
proof (intro conjI allI impI)
  show "move_walk rt [] = fold move_node (preorder rt) []"
    by (rule move_walk_fold)
next
  fix n m k
  assume "pid n = Some k \<and> k \<noteq> [] \<and> plabel n = ''t''"
  then show "map_of (move_node n m) k =
          Some (case map_of m k of
                  None \<Rightarrow> \<lparr>origin = None, traces = [n]\<rparr>
                | Some g \<Rightarrow> g\<lparr>traces := traces g @ [n]\<rparr>)"
    by (simp add: map_of_move_node split: option.splits)
next
  fix n m k
  assume "pid n = Some k \<and> k \<noteq> [] \<and> plabel n \<noteq> ''t''"
  then show "map_of (move_node n m) k =
          Some (case map_of m k of
                  None \<Rightarrow> \<lparr>origin = Some n, traces = []\<rparr>
                | Some g \<Rightarrow> g\<lparr>origin := Some n\<rparr>)"
    by (simp add: map_of_move_node split: option.splits)
next
  fix n m k
  assume "pid n \<noteq> Some k"
  then show "map_of (move_node n m) k = map_of m k"
    by (simp add: map_of_move_node)
next
  show "distinct (map fst (move_walk rt []))"
    by (simp add: move_walk_fold distinct_fold_move_node)
next
  fix k
  show "map_of (move_walk rt []) k =
        (if k \<noteq> [] \<and> (\<exists>n \<in> set (preorder rt). pid n = Some k) then
           Some \<lparr>origin = (if origin_nodes k (preorder rt) = [] then None
                            else Some (last (origin_nodes k (preorder rt)))),
                 traces = trace_nodes k (preorder rt)\<rparr>
         else None)"
    unfolding move_walk_fold by (rule fold_move_node)
qed

theorem movement_resolution_witness:
  "map_of (move_walk (Positioned ''CP'' [] None 25 0 36 22
        [Positioned ''DP'' [] (Some ''wh'') 0 50 36 22 [],
         Positioned ''XP'' [] (Some ''wh'') 0 50 36 22 [],
         Positioned ''t'' [] (Some ''wh'') 0 50 36 22 []]) []) ''wh''
     = Some \<lparr>origin = Some (Positioned ''XP'' [] (Some ''wh'') 0 50 36 22 []),
             traces = [Positioned ''t'' [] (Some ''wh'') 0 50 36 22 []]\<rparr>
   \<and> map_of (move_node (Positioned ''t'' [] (Some ''wh'') 0 50 36 22 []) []) ''wh''
     = Some \<lparr>origin = None, traces = [Positioned ''t'' [] (Some ''wh'') 0 50 36 22 []]\<rparr>
   \<and> map_of (move_node (Positioned ''XP'' [] (Some ''wh'') 0 50 36 22 [])
         [(''wh'', \<lparr>origin = Some (Positioned ''DP'' [] (Some ''wh'') 0 50 36 22 []), traces = []\<rparr>)]) ''wh''
     = Some \<lparr>origin = Some (Positioned ''XP'' [] (Some ''wh'') 0 50 36 22 []), traces = []\<rparr>
   \<and> map_of (move_node (Positioned ''XP'' [] (Some ''wh'') 0 50 36 22 []) []) ''q'' = None"
proof -
  let ?DP = "Positioned ''DP'' [] (Some ''wh'') 0 50 36 22 []"
  let ?XP = "Positioned ''XP'' [] (Some ''wh'') 0 50 36 22 []"
  let ?t = "Positioned ''t'' [] (Some ''wh'') 0 50 36 22 []"
  let ?T = "Positioned ''CP'' [] None 25 0 36 22 [?DP, ?XP, ?t]"
  note r = movement_resolution [of ?T]
  have a: "map_of (move_walk ?T []) ''wh'' = Some \<lparr>origin = Some ?XP, traces = [?t]\<rparr>"
    using r [THEN conjunct2, THEN conjunct2, THEN conjunct2, THEN conjunct2, THEN conjunct2,
        rule_format, of "''wh''"]
    by (simp add: origin_nodes_def trace_nodes_def)
  have b: "map_of (move_node ?t []) ''wh'' = Some \<lparr>origin = None, traces = [?t]\<rparr>"
    using r [THEN conjunct2, THEN conjunct1, rule_format, of ?t "''wh''" "[]"]
    by simp
  have c: "map_of (move_node ?XP [(''wh'', \<lparr>origin = Some ?DP, traces = []\<rparr>)]) ''wh''
     = Some \<lparr>origin = Some ?XP, traces = []\<rparr>"
    using r [THEN conjunct2, THEN conjunct2, THEN conjunct1, rule_format,
        of ?XP "''wh''" "[(''wh'', \<lparr>origin = Some ?DP, traces = []\<rparr>)]"]
    by simp
  have d: "map_of (move_node ?XP []) ''q'' = None"
    using r [THEN conjunct2, THEN conjunct2, THEN conjunct2, THEN conjunct1, rule_format,
        of ?XP "''q''" "[]"]
    by simp
  from a b c d show ?thesis by simp
qed

lemma fold_append_paths: "fold (\<lambda>t acc. acc @ [f t]) ts svg = svg @ map f ts"
  by (induction ts arbitrary: svg) simp_all

lemma draw_group_paths: "draw_group kg svg = svg @ group_paths kg"
  by (simp add: draw_group_def group_paths_def fold_append_paths split: option.splits)

lemma fold_draw_group: "fold draw_group gs svg = svg @ concat (map group_paths gs)"
  by (induction gs arbitrary: svg) (simp_all add: draw_group_paths)

text \<open>
  C6. \<open>drawMovement\<close> appends, group by group, nothing for a group without origin
  and otherwise one path per trace, in order: from the top centre of the origin to the
  bottom centre of the trace, first control point 40 above the start, second control
  point 40 below the end, with the arrow marker at the end.
\<close>

theorem movement_arcs:
  "drawMovement svg rt =
     svg @ concat (map (\<lambda>(k, g).
        case origin g of
          None \<Rightarrow> []
        | Some org \<Rightarrow>
            map (\<lambda>t. \<lparr>d_x1 = px org + pwidth org / 2, d_y1 = py org,
                       d_c1x = px org + pwidth org / 2, d_c1y = py org - 40,
                       d_c2x = px t + pwidth t / 2, d_c2y = py t + pheight t + 40,
                       d_x2 = px t + pwidth t / 2, d_y2 = py t + pheight t,
                       cls = ''ling-tree-move'', marker_end = ''url(#ling-tree-arrow)''\<rparr>)
              (traces g)) (move_walk rt []))"
proof -
  have "group_paths = (\<lambda>(k, g).
        case origin g of
          None \<Rightarrow> []
        | Some org \<Rightarrow>
            map (\<lambda>t. \<lparr>d_x1 = px org + pwidth org / 2, d_y1 = py org,
                       d_c1x = px org + pwidth org / 2, d_c1y = py org - 40,
                       d_c2x = px t + pwidth t / 2, d_c2y = py t + pheight t + 40,
                       d_x2 = px t + pwidth t / 2, d_y2 = py t + pheight t,
                       cls = ''ling-tree-move'', marker_end = ''url(#ling-tree-arrow)''\<rparr>)
              (traces g))"
    by (auto simp: group_paths_def move_path_def Let_def fun_eq_iff split: option.splits)
  then show ?thesis
    by (simp add: drawMovement_def fold_draw_group)
qed


theorem movement_arcs_witness:
  "drawMovement [] (Positioned ''CP'' [] None 25 0 36 22
        [Positioned ''DP'' [] (Some ''wh'') 0 50 36 22 [],
         Positioned ''t'' [] (Some ''wh'') 40 50 36 22 [],
         Positioned ''t'' [] (Some ''q'') 0 50 36 22 []])
     = [\<lparr>d_x1 = 18, d_y1 = 50, d_c1x = 18, d_c1y = 10, d_c2x = 58, d_c2y = 112,
         d_x2 = 58, d_y2 = 72, cls = ''ling-tree-move'',
         marker_end = ''url(#ling-tree-arrow)''\<rparr>]"
proof -
  let ?T = "Positioned ''CP'' [] None 25 0 36 22
        [Positioned ''DP'' [] (Some ''wh'') 0 50 36 22 [],
         Positioned ''t'' [] (Some ''wh'') 40 50 36 22 [],
         Positioned ''t'' [] (Some ''q'') 0 50 36 22 []]"
  have g: "move_walk ?T [] =
     [(''wh'', \<lparr>origin = Some (Positioned ''DP'' [] (Some ''wh'') 0 50 36 22 []),
                traces = [Positioned ''t'' [] (Some ''wh'') 40 50 36 22 []]\<rparr>),
      (''q'', \<lparr>origin = None, traces = [Positioned ''t'' [] (Some ''q'') 0 50 36 22 []]\<rparr>)]"
    by (simp add: move_node_def)
  show ?thesis
    using movement_arcs [of "[]" ?T] unfolding g by simp
qed
















section \<open>Properties of the layout\<close>

lemma box_tree_firstWalk:
  "box_tree (fst (firstWalk p)) = box_tree p"
  "map box_tree (fst (firstWalk_each ps i len a)) = map box_tree ps"
proof (induction p and ps i len a rule: firstWalk_firstWalk_each.induct)
  case (1 l fs i x y w h cs)
  then show ?case
    by (simp add: case_prod_beta Let_def)
next
  case (2 i len widthSum)
  show ?case by simp
next
  case (3 c cs i len widthSum)
  obtain c' w where fw: "firstWalk c = (c', w)"
    by fastforce
  from 3(1) fw have a: "box_tree c' = box_tree c"
    by simp
  from 3(2) [OF refl fw [symmetric] refl refl] have b:
    "map box_tree (fst (firstWalk_each cs (i + 1) len
        (if int i < int len - 1 then widthSum + w + H_GAP else widthSum + w))) = map box_tree cs"
    by simp
  from a b show ?case
    by (simp add: fw case_prod_beta Let_def)
qed

lemma box_tree_secondWalk:
  "box_tree (secondWalk p ox oy) = box_tree p"
  "map box_tree (secondWalk_each ps dn ox oy h) = map box_tree dn @ map box_tree ps"
  by (induction p ox oy and ps dn ox oy h rule: secondWalk_secondWalk_each.induct)
     (simp_all add: Let_def)

lemma box_tree_shift: "box_tree (shift p dx) = box_tree p"
  by (induction p) (simp add: map_idI comp_def cong: map_cong)

lemma box_tree_clone: "box_tree (clone t) = clone t"
  by (induction t) (simp add: map_idI comp_def cong: map_cong)

lemma box_tree_layoutTree: "box_tree (layoutTree t) = clone t"
  by (simp add: layoutTree_def Let_def box_tree_shift box_tree_secondWalk box_tree_firstWalk
      box_tree_clone split: prod.splits option.splits)
     (metis box_tree_firstWalk(1) box_tree_clone fst_conv)


lemma erase_box_tree: "erase (box_tree p) = erase p"
  by (induction p) (simp add: comp_def cong: map_cong)

lemma erase_clone: "erase (clone t) = t"
  by (induction t) (simp add: map_idI comp_def cong: map_cong)

lemma erase_layoutTree: "erase (layoutTree t) = t"
  by (metis box_tree_layoutTree erase_box_tree erase_clone)

lemma box_of_Positioned: "box_of (Positioned l fs i x y w h cs) = (l, fs, w, h)"
  by (simp add: box_of_def)

lemma boxes_box_tree: "map box_of (preorder (box_tree p)) = map box_of (preorder p)"
proof (induction p)
  case (Positioned l fs i x y w h cs)
  then have "map (map box_of \<circ> preorder \<circ> box_tree) cs = map (map box_of \<circ> preorder) cs"
    by (intro map_cong) simp_all
  then have "concat (map (map box_of \<circ> preorder \<circ> box_tree) cs)
      = concat (map (map box_of \<circ> preorder) cs)"
    by (rule arg_cong)
  then show ?case
    by (simp add: map_concat box_of_Positioned comp_def)
qed

lemma boxes_clone:
  "p \<in> set (preorder (clone t)) \<Longrightarrow>
     pwidth p = measure_text (plabel p) (pfeatures p) \<and> pheight p = NODE_H"
proof (induction t arbitrary: p)
  case (Node l fs i cs)
  then show ?case
    by (auto simp: measureLabel_def)
qed

lemma boxes_layoutTree:
  assumes "p \<in> set (preorder (layoutTree t))"
  shows "pwidth p = measure_text (plabel p) (pfeatures p) \<and> pheight p = NODE_H"
proof -
  have "map box_of (preorder (layoutTree t)) = map box_of (preorder (clone t))"
    using boxes_box_tree [of "layoutTree t"] by (simp add: box_tree_layoutTree)
  then have "box_of ` set (preorder (layoutTree t)) = box_of ` set (preorder (clone t))"
    by (metis set_map)
  with assms obtain q where q: "q \<in> set (preorder (clone t))" "box_of q = box_of p"
    by (metis imageE imageI)
  from q(2) have "plabel q = plabel p" "pfeatures q = pfeatures p" "pwidth q = pwidth p"
    "pheight q = pheight p"
    by (simp_all add: box_of_def)
  with boxes_clone [OF q(1)] show ?thesis
    by metis
qed

lemma firstWalk_each_sum:
  "i + length ps = len \<Longrightarrow>
   snd (firstWalk_each ps i len a) =
     a + sum_list (map (\<lambda>c. snd (firstWalk c)) ps) + H_GAP * of_nat (length ps - 1)"
proof (induction ps arbitrary: i a)
  case Nil
  show ?case by simp
next
  case (Cons c cs)
  from Cons.prems have g: "int i < int len - 1 \<longleftrightarrow> cs \<noteq> []"
    by auto
  from Cons.prems have "Suc i + length cs = len"
    by simp
  note ih = Cons.IH [OF this]
  have step: "snd (firstWalk_each (c # cs) i len a) =
      snd (firstWalk_each cs (Suc i) len
        (if cs \<noteq> [] then a + snd (firstWalk c) + H_GAP else a + snd (firstWalk c)))"
    by (simp add: case_prod_beta Let_def g)
  show ?case
  proof (cases cs)
    case Nil
    show ?thesis
      unfolding step using Nil by simp
  next
    case (Cons d ds)
    then have ne: "cs \<noteq> []" and len: "length cs - 1 = length ds" "length (c # cs) - 1 = Suc (length ds)"
      by simp_all
    have "snd (firstWalk_each (c # cs) i len a) =
        a + snd (firstWalk c) + H_GAP + sum_list (map (\<lambda>c. snd (firstWalk c)) cs)
          + H_GAP * of_nat (length ds)"
      unfolding step using ne len by (simp add: ih)
    also have "\<dots> = a + sum_list (map (\<lambda>c. snd (firstWalk c)) (c # cs))
          + H_GAP * of_nat (Suc (length ds))"
      by (simp add: algebra_simps)
    finally show ?thesis
      by (simp only: len)
  qed
qed

lemma firstWalk_span:
  "snd (firstWalk (Positioned l fs i x y w h cs)) =
     (if cs = [] then w
      else max w (sum_list (map (\<lambda>c. snd (firstWalk c)) cs) + H_GAP * of_nat (length cs - 1)))"
  using firstWalk_each_sum [of 0 cs "length cs" 0]
  by (simp add: case_prod_beta Let_def)

text \<open>
  C3 (amended). In the tree returned by \<open>layoutTree\<close> every node, leaf or internal, has
  as width its label-derived width \<open>max(36, 8 * characters + 12)\<close>, the characters
  being those of the label and, when there are features, of \<open>" [" + features + "]"\<close>;
  every height is 22; the returned tree extends the input node for node. The larger of
  a node's own width and the sum of its children's spans plus 14 between adjacent
  children is the number \<open>firstWalk\<close> returns for an internal node (for a leaf, its
  width); it is not stored in the node.
\<close>

theorem layout_widths:
  "(\<forall>p \<in> set (preorder (layoutTree t)).
       pwidth p = measure_text (plabel p) (pfeatures p)
       \<and> pwidth p = max 36 (8 * of_nat (length (label_text (plabel p) (pfeatures p))) + 12)
       \<and> pheight p = 22)
   \<and> erase (layoutTree t) = t
   \<and> pwidth (layoutTree t) = measureLabel t
   \<and> snd (firstWalk (clone t)) =
       (if children t = [] then measureLabel t
        else max (measureLabel t)
               (sum_list (map (\<lambda>c. snd (firstWalk (clone c))) (children t))
                + 14 * of_nat (length (children t) - 1)))"
proof (intro conjI ballI)
  fix p
  assume p: "p \<in> set (preorder (layoutTree t))"
  from boxes_layoutTree [OF p] show "pwidth p = measure_text (plabel p) (pfeatures p)"
    and "pheight p = 22"
    by (simp_all add: NODE_H_def)
  then show "pwidth p = max 36 (8 * of_nat (length (label_text (plabel p) (pfeatures p))) + 12)"
    by (simp add: measure_text_def NODE_W_def)
next
  show "erase (layoutTree t) = t"
    by (rule erase_layoutTree)
next
  have "layoutTree t \<in> set (preorder (layoutTree t))"
    by (cases "layoutTree t") simp
  from boxes_layoutTree [OF this] have "pwidth (layoutTree t)
      = measure_text (plabel (layoutTree t)) (pfeatures (layoutTree t))"
    by simp
  moreover have "plabel (layoutTree t) = label t \<and> pfeatures (layoutTree t) = features t"
    using erase_layoutTree [of t] by (cases "layoutTree t"; cases t) auto
  ultimately show "pwidth (layoutTree t) = measureLabel t"
    by (simp add: measureLabel_def)
next
  show "snd (firstWalk (clone t)) =
       (if children t = [] then measureLabel t
        else max (measureLabel t)
               (sum_list (map (\<lambda>c. snd (firstWalk (clone c))) (children t))
                + 14 * of_nat (length (children t) - 1)))"
    by (cases t) (simp add: firstWalk_span comp_def H_GAP_def del: firstWalk.simps)
qed

theorem layout_widths_witness:
  "Positioned ''A'' [] None 25 0 36 22
        [Positioned ''b'' [] None 0 50 36 22 [], Positioned ''c'' [] None 0 50 36 22 []]
      \<in> set (preorder (layoutTree (Node ''A'' [] None [Node ''b'' [] None [], Node ''c'' [] None []])))
   \<and> measure_text ''A'' [] = 36
   \<and> snd (firstWalk (clone (Node ''A'' [] None [Node ''b'' [] None [], Node ''c'' [] None []]))) = 86"
proof -
  let ?t = "Node ''A'' [] None [Node ''b'' [] None [], Node ''c'' [] None []]"
  let ?p = "Positioned ''A'' [] None 25 0 36 22
        [Positioned ''b'' [] None 0 50 36 22 [], Positioned ''c'' [] None 0 50 36 22 []]"
  note r = layout_widths [of ?t]
  have a: "?p \<in> set (preorder (layoutTree ?t))"
    by code_simp
  from r [THEN conjunct1, rule_format, OF a] have b: "measure_text ''A'' [] = 36"
    by simp
  have l: "snd (firstWalk (clone (Node ''b'' [] None []))) = 36"
    "snd (firstWalk (clone (Node ''c'' [] None []))) = 36" "measureLabel ?t = 36"
    by code_simp+
  from r [THEN conjunct2, THEN conjunct2, THEN conjunct2]
  have c: "snd (firstWalk (clone ?t)) = 86"
    by (simp add: l del: clone.simps firstWalk.simps)
  from a b c show ?thesis by blast
qed

text \<open>
  C3 as stated fails at a node with two leaf children: its width is its own label
  width 36, not the larger value 86 that the children's widths and the gap give.
\<close>

theorem internal_width_counterexample:
  "children (Node ''A'' [] None [Node ''b'' [] None [], Node ''c'' [] None []]) \<noteq> []
   \<and> pwidth (layoutTree (Node ''A'' [] None [Node ''b'' [] None [], Node ''c'' [] None []])) = 36
   \<and> max (measureLabel (Node ''A'' [] None [Node ''b'' [] None [], Node ''c'' [] None []]))
        (sum_list (map pwidth (pchildren
            (layoutTree (Node ''A'' [] None [Node ''b'' [] None [], Node ''c'' [] None []]))))
         + H_GAP * of_nat (length (pchildren
            (layoutTree (Node ''A'' [] None [Node ''b'' [] None [], Node ''c'' [] None []]))) - 1))
       = 86"
  by code_simp

lemma visit_fold: "visit p acc = fold (\<lambda>n a. min_acc a (px n)) (preorder p) acc"
proof (induction p acc rule: visit.induct)
  case (1 l fs i x y w h cs minX)
  have "fold visit cs a = fold (\<lambda>n a. min_acc a (px n)) (concat (map preorder cs)) a" for a
    using 1
  proof (induction cs arbitrary: a)
    case Nil
    show ?case by simp
  next
    case (Cons c cs)
    then show ?case by simp
  qed
  then show ?case by simp
qed

lemma min_acc_simps: "min_acc None v = Some v" "min_acc (Some m) v = Some (min m v)"
  by (simp_all add: min_acc_def)

lemma Min_insert_min:
  "finite S \<Longrightarrow> Min (insert (min a b) S) = Min (insert a (insert b S))"
  by (cases "S = {}") (simp_all add: min.assoc)

lemma fold_min_acc_Some:
  "fold (\<lambda>n a. min_acc a (px n)) ns (Some m) = Some (Min (insert m (px ` set ns)))"
proof (induction ns arbitrary: m)
  case Nil
  show ?case by simp
next
  case (Cons n ns)
  have "fold (\<lambda>n a. min_acc a (px n)) (n # ns) (Some m)
      = Some (Min (insert (min m (px n)) (px ` set ns)))"
    by (simp add: min_acc_simps Cons.IH)
  also have "Min (insert (min m (px n)) (px ` set ns)) = Min (insert m (insert (px n) (px ` set ns)))"
    by (rule Min_insert_min) simp
  finally show ?case
    by simp
qed

lemma fold_min_acc_None:
  "ns \<noteq> [] \<Longrightarrow> fold (\<lambda>n a. min_acc a (px n)) ns None = Some (Min (px ` set ns))"
  by (cases ns) (simp_all add: min_acc_simps fold_min_acc_Some)

lemma preorder_nonempty: "preorder p \<noteq> []"
  by (cases p) simp

lemma visit_Some: "visit p None = Some (Min (px ` set (preorder p)))"
  by (simp add: visit_fold fold_min_acc_None preorder_nonempty)

lemma px_shift: "px (shift p dx) = px p - dx"
  by (cases p) simp

lemma preorder_shift: "preorder (shift p dx) = map (\<lambda>q. shift q dx) (preorder p)"
proof (induction p)
  case (Positioned l fs i x y w h cs)
  then have "map (preorder \<circ> (\<lambda>c. shift c dx)) cs = map (map (\<lambda>q. shift q dx) \<circ> preorder) cs"
    by (intro map_cong) simp_all
  then have "concat (map (preorder \<circ> (\<lambda>c. shift c dx)) cs)
      = concat (map (map (\<lambda>q. shift q dx) \<circ> preorder) cs)"
    by (rule arg_cong)
  then show ?case
    by (simp add: map_concat)
qed

lemma layoutTree_shift:
  "layoutTree t =
     shift (secondWalk (fst (firstWalk (clone t))) 0 0)
       (Min (px ` set (preorder (secondWalk (fst (firstWalk (clone t))) 0 0))))"
  by (simp add: layoutTree_def Let_def visit_Some case_prod_beta)

text \<open>
  C8. In the tree returned by \<open>layoutTree\<close> every \<open>x\<close> is at least 0 and the minimum
  \<open>x\<close> over all nodes is exactly 0: the result is the tree after both walks, shifted by
  the minimum \<open>x\<close> of that tree.
\<close>

theorem layout_normalized:
  "(\<forall>p \<in> set (preorder (layoutTree t)). 0 \<le> px p)
   \<and> (\<exists>p \<in> set (preorder (layoutTree t)). px p = 0)
   \<and> Min (px ` set (preorder (layoutTree t))) = 0
   \<and> layoutTree t =
       shift (secondWalk (fst (firstWalk (clone t))) 0 0)
         (Min (px ` set (preorder (secondWalk (fst (firstWalk (clone t))) 0 0))))"
proof -
  let ?r = "secondWalk (fst (firstWalk (clone t))) 0 0"
  let ?X = "px ` set (preorder ?r)"
  have fin: "finite ?X" and ne: "?X \<noteq> {}"
    by (simp_all add: preorder_nonempty)
  have xs: "px ` set (preorder (layoutTree t)) = (\<lambda>v. v - Min ?X) ` ?X"
    by (simp add: layoutTree_shift preorder_shift image_image px_shift)
  have ge: "0 \<le> v" if "v \<in> px ` set (preorder (layoutTree t))" for v
  proof -
    from that xs obtain u where u: "u \<in> ?X" "v = u - Min ?X"
      by auto
    from fin u(1) have "Min ?X \<le> u"
      by (rule Min_le)
    with u(2) show ?thesis by simp
  qed
  have zero: "0 \<in> px ` set (preorder (layoutTree t))"
  proof -
    from fin ne have "Min ?X \<in> ?X"
      by (rule Min_in)
    then have "Min ?X - Min ?X \<in> (\<lambda>v. v - Min ?X) ` ?X"
      by (rule imageI)
    with xs show ?thesis by simp
  qed
  have m: "Min (px ` set (preorder (layoutTree t))) = 0"
  proof (rule Min_eqI)
    show "finite (px ` set (preorder (layoutTree t)))" by simp
    show "0 \<le> v" if "v \<in> px ` set (preorder (layoutTree t))" for v
      using that by (rule ge)
    show "0 \<in> px ` set (preorder (layoutTree t))" by (rule zero)
  qed
  from ge have a: "\<forall>p \<in> set (preorder (layoutTree t)). 0 \<le> px p"
    by simp
  from zero have b: "\<exists>p \<in> set (preorder (layoutTree t)). px p = 0"
    by auto
  from a b m layoutTree_shift [of t] show ?thesis
    by blast
qed

theorem layout_normalized_witness:
  "preorder (layoutTree (Node ''a very long label'' [] None [Node ''b'' [] None []]))
     = [Positioned ''a very long label'' [] None 0 0 148 22 [Positioned ''b'' [] None 56 50 36 22 []],
        Positioned ''b'' [] None 56 50 36 22 []]
   \<and> px (secondWalk (fst (firstWalk (clone (Node ''a very long label'' [] None [Node ''b'' [] None []])))) 0 0) = - 56
   \<and> 0 \<le> px (Positioned ''b'' [] None 56 50 36 22 [])
   \<and> Min (px ` set (preorder (layoutTree (Node ''a very long label'' [] None [Node ''b'' [] None []])))) = 0"
proof -
  let ?t = "Node ''a very long label'' [] None [Node ''b'' [] None []]"
  let ?b = "Positioned ''b'' [] None 56 50 36 22 []"
  note r = layout_normalized [of ?t]
  have a: "preorder (layoutTree ?t)
     = [Positioned ''a very long label'' [] None 0 0 148 22 [?b], ?b]"
    by code_simp
  have b: "px (secondWalk (fst (firstWalk (clone ?t))) 0 0) = - 56"
    by code_simp
  have "?b \<in> set (preorder (layoutTree ?t))"
    unfolding a by simp
  from r [THEN conjunct1, rule_format, OF this] have c: "0 \<le> px ?b" .
  from r have d: "Min (px ` set (preorder (layoutTree ?t))) = 0"
    by blast
  from a b c d show ?thesis by blast
qed

text \<open>
  C1. The claim fails on the code. For \<open>[A b c]\<close> both leaf children end at \<open>x = 0\<close>
  with width 36: \<open>firstWalk\<close> sets the \<open>x\<close> of every leaf to 0, and \<open>secondWalk\<close>
  computes the sibling \<open>shift\<close> but passes \<open>ox + c.x - c.x + 0\<close> down, so no sibling
  is moved past the previous one.
\<close>

theorem siblings_overlap:
  "parseTree ''[A b c]'' = Inr (Node ''A'' [] None [Node ''b'' [] None [], Node ''c'' [] None []])
   \<and> layoutTree (Node ''A'' [] None [Node ''b'' [] None [], Node ''c'' [] None []]) =
       Positioned ''A'' [] None 25 0 36 22
         [Positioned ''b'' [] None 0 50 36 22 [], Positioned ''c'' [] None 0 50 36 22 []]
   \<and> \<not> px (Positioned ''b'' [] None 0 50 36 22 []) + pwidth (Positioned ''b'' [] None 0 50 36 22 [])
         \<le> px (Positioned ''c'' [] None 0 50 36 22 [])"
  by code_simp

section \<open>Properties of the layout over a store\<close>

lemma only_above_refl: "only_above L h h"
  by (simp add: only_above_def)

lemma only_above_trans: "only_above L h h1 \<Longrightarrow> only_above L h1 h2 \<Longrightarrow> only_above L h h2"
  by (simp add: only_above_def)

lemma only_above_length: "only_above L h h' \<Longrightarrow> length h' = length h"
  by (metis only_above_def length_map)

lemma node_cell_Some: "node_cell h a = Some nd \<longleftrightarrow> a < length h \<and> h ! a = NodeCell nd"
  by (auto simp: node_cell_def split: cell.splits)

lemma put_geom_only_above:
  assumes "L \<le> n" "get_geom h n = Some g"
    "g_width g' = g_width g" "g_height g' = g_height g" "g_parent g' = g_parent g"
  shows "only_above L h (put_geom h n g')"
proof -
  from assms(2) obtain nd where nd: "n < length h" "h ! n = NodeCell nd" "h_geom nd = Some g"
    by (auto simp: get_geom_def node_cell_Some split: option.splits)
  have eq: "g'\<lparr>g_x := 0, g_y := 0\<rparr> = g\<lparr>g_x := 0, g_y := 0\<rparr>"
    using assms(3-5) by (cases g; cases g') simp
  have "skel (NodeCell (nd\<lparr>h_geom := Some g'\<rparr>)) = skel (h ! n)"
    using nd eq by (simp add: skel_def)
  then have "map skel (h[n := NodeCell (nd\<lparr>h_geom := Some g'\<rparr>)]) = map skel h"
    by (simp add: map_update list_update_same_conv nd(1))
  moreover have "take L (h[n := NodeCell (nd\<lparr>h_geom := Some g'\<rparr>)]) = take L h"
    using assms(1) by simp
  ultimately show ?thesis
    using nd by (simp add: only_above_def put_geom_def node_cell_def)
qed

lemma skel_children:
  "skel c' = skel c \<Longrightarrow> c = NodeCell nd \<Longrightarrow> \<exists>nd'. c' = NodeCell nd' \<and> h_children nd' = h_children nd"
  by (cases c') (auto simp: skel_def hnode.defs dest: arg_cong [where f = h_children])

lemma fresh_closed_only_above:
  assumes "fresh_closed L h" "only_above L h h'"
  shows "fresh_closed L h'"
  unfolding fresh_closed_def
proof (intro allI impI)
  fix a
  assume a: "a < length h'" "L \<le> a"
  from assms(2) have len: "length h' = length h"
    by (rule only_above_length)
  from assms(2) have "map skel h' ! a = map skel h ! a"
    by (simp add: only_above_def)
  with a len have sk: "skel (h' ! a) = skel (h ! a)"
    by simp
  from assms(1) a len have old: "case h ! a of FeatureArray fs \<Rightarrow> True
         | NodeCell nd \<Rightarrow> list_all (\<lambda>c. L \<le> c) (h_children nd)"
    by (simp add: fresh_closed_def)
  show "case h' ! a of FeatureArray fs \<Rightarrow> True
         | NodeCell nd \<Rightarrow> list_all (\<lambda>c. L \<le> c) (h_children nd)"
  proof (cases "h' ! a")
    case (FeatureArray fs)
    then show ?thesis by simp
  next
    case (NodeCell nd')
    from skel_children [OF sk [symmetric] NodeCell] obtain nd where
      "h ! a = NodeCell nd" "h_children nd = h_children nd'"
      by blast
    with old NodeCell show ?thesis by simp
  qed
qed

lemma fresh_closed_children:
  "fresh_closed L h \<Longrightarrow> L \<le> n \<Longrightarrow> node_cell h n = Some nd \<Longrightarrow> \<forall>c \<in> set (h_children nd). L \<le> c"
  by (auto simp: fresh_closed_def node_cell_Some list_all_iff)

lemma firstWalk_each_frame:
  assumes single: "\<And>h n h' w. fresh_closed L h \<Longrightarrow> L \<le> n \<Longrightarrow>
      h_firstWalk fuel h n = Some (h', w) \<Longrightarrow> only_above L h h'"
  shows "fresh_closed L h \<Longrightarrow> \<forall>c \<in> set cs. L \<le> c \<Longrightarrow>
      h_firstWalk_each fuel h cs i len ws = Some (h', w) \<Longrightarrow> only_above L h h'"
proof (induction cs arbitrary: h i ws)
  case Nil
  then show ?case
    by (simp add: only_above_refl)
next
  case (Cons c cs)
  from Cons.prems(3) obtain h1 w1 ws2 where
    a: "h_firstWalk fuel h c = Some (h1, w1)" and
    b: "h_firstWalk_each fuel h1 cs (i + 1) len ws2 = Some (h', w)"
    by (auto simp: Let_def split: Option.bind_splits)
  from Cons.prems(2) have c: "L \<le> c" and cs: "\<forall>c \<in> set cs. L \<le> c"
    by simp_all
  from single [OF Cons.prems(1) c a] have o1: "only_above L h h1" .
  with Cons.prems(1) have "fresh_closed L h1"
    by (rule fresh_closed_only_above)
  from Cons.IH [OF this cs b] have "only_above L h1 h'" .
  with o1 show ?case
    by (rule only_above_trans)
qed

lemma firstWalk_frame:
  "fresh_closed L h \<Longrightarrow> L \<le> n \<Longrightarrow> h_firstWalk fuel h n = Some (h', w) \<Longrightarrow> only_above L h h'"
proof (induction fuel arbitrary: h n h' w)
  case 0
  then show ?case by simp
next
  case (Suc fuel)
  from Suc.prems(3) obtain nd g where nd: "node_cell h n = Some nd" and g: "h_geom nd = Some g"
    by (auto split: Option.bind_splits)
  then have gg: "get_geom h n = Some g"
    by (simp add: get_geom_def)
  show ?case
  proof (cases "length (h_children nd) = 0")
    case True
    with Suc.prems(3) nd g have "h' = put_geom h n (g\<lparr>g_x := 0\<rparr>)"
      by simp
    with put_geom_only_above [OF Suc.prems(2) gg, of "g\<lparr>g_x := 0\<rparr>"] show ?thesis
      by simp
  next
    case False
    with Suc.prems(3) nd g obtain h1 widthSum g1 where
      a: "h_firstWalk_each fuel h (h_children nd) 0 (length (h_children nd)) 0 = Some (h1, widthSum)" and
      b: "get_geom h1 n = Some g1" and
      c: "h' = put_geom h1 n (g1\<lparr>g_x := widthSum / 2 - g_width g1 / 2\<rparr>)"
      by (auto split: Option.bind_splits)
    from fresh_closed_children [OF Suc.prems(1,2) nd] have cs: "\<forall>c \<in> set (h_children nd). L \<le> c" .
    from firstWalk_each_frame [OF Suc.IH Suc.prems(1) cs a] have o1: "only_above L h h1" .
    from put_geom_only_above [OF Suc.prems(2) b, of "g1\<lparr>g_x := widthSum / 2 - g_width g1 / 2\<rparr>"] c
    have "only_above L h1 h'"
      by simp
    with o1 show ?thesis
      by (rule only_above_trans)
  qed
qed

lemma secondWalk_each_frame:
  assumes single: "\<And>h n ox oy h'. fresh_closed L h \<Longrightarrow> L \<le> n \<Longrightarrow>
      h_secondWalk fuel h n ox oy = Some h' \<Longrightarrow> only_above L h h'"
  shows "fresh_closed L h \<Longrightarrow> \<forall>c \<in> set cs. L \<le> c \<Longrightarrow>
      h_secondWalk_each fuel h n cs ox oy = Some h' \<Longrightarrow> only_above L h h'"
proof (induction cs arbitrary: h)
  case Nil
  then show ?case
    by (simp add: only_above_refl)
next
  case (Cons c cs)
  from Cons.prems(3) obtain h1 ox1 oy1 where
    a: "h_secondWalk fuel h c ox1 oy1 = Some h1" and
    b: "h_secondWalk_each fuel h1 n cs ox oy = Some h'"
    by (auto split: Option.bind_splits)
  from Cons.prems(2) have c: "L \<le> c" and cs: "\<forall>c \<in> set cs. L \<le> c"
    by simp_all
  from single [OF Cons.prems(1) c a] have o1: "only_above L h h1" .
  with Cons.prems(1) have "fresh_closed L h1"
    by (rule fresh_closed_only_above)
  from Cons.IH [OF this cs b] have "only_above L h1 h'" .
  with o1 show ?case
    by (rule only_above_trans)
qed

lemma secondWalk_frame:
  "fresh_closed L h \<Longrightarrow> L \<le> n \<Longrightarrow> h_secondWalk fuel h n ox oy = Some h' \<Longrightarrow> only_above L h h'"
proof (induction fuel arbitrary: h n ox oy h')
  case 0
  then show ?case by simp
next
  case (Suc fuel)
  from Suc.prems(3) obtain g nd where g: "get_geom h n = Some g" and
    nd: "node_cell (put_geom h n (g\<lparr>g_x := g_x g + ox, g_y := oy\<rparr>)) n = Some nd" and
    a: "h_secondWalk_each fuel (put_geom h n (g\<lparr>g_x := g_x g + ox, g_y := oy\<rparr>)) n (h_children nd) ox oy
         = Some h'"
    by (auto simp: Let_def split: Option.bind_splits)
  let ?h1 = "put_geom h n (g\<lparr>g_x := g_x g + ox, g_y := oy\<rparr>)"
  from put_geom_only_above [OF Suc.prems(2) g, of "g\<lparr>g_x := g_x g + ox, g_y := oy\<rparr>"]
  have o1: "only_above L h ?h1"
    by simp
  with Suc.prems(1) have f1: "fresh_closed L ?h1"
    by (rule fresh_closed_only_above)
  from fresh_closed_children [OF f1 Suc.prems(2) nd] have cs: "\<forall>c \<in> set (h_children nd). L \<le> c" .
  from secondWalk_each_frame [OF Suc.IH f1 cs a] have "only_above L ?h1 h'" .
  with o1 show ?case
    by (rule only_above_trans)
qed

lemma shift_each_frame:
  assumes single: "\<And>h n h'. fresh_closed L h \<Longrightarrow> L \<le> n \<Longrightarrow>
      h_shift fuel h n dx = Some h' \<Longrightarrow> only_above L h h'"
  shows "fresh_closed L h \<Longrightarrow> \<forall>c \<in> set cs. L \<le> c \<Longrightarrow>
      h_shift_each fuel h cs dx = Some h' \<Longrightarrow> only_above L h h'"
proof (induction cs arbitrary: h)
  case Nil
  then show ?case
    by (simp add: only_above_refl)
next
  case (Cons c cs)
  from Cons.prems(3) obtain h1 where
    a: "h_shift fuel h c dx = Some h1" and
    b: "h_shift_each fuel h1 cs dx = Some h'"
    by (auto split: Option.bind_splits)
  from Cons.prems(2) have c: "L \<le> c" and cs: "\<forall>c \<in> set cs. L \<le> c"
    by simp_all
  from single [OF Cons.prems(1) c a] have o1: "only_above L h h1" .
  with Cons.prems(1) have "fresh_closed L h1"
    by (rule fresh_closed_only_above)
  from Cons.IH [OF this cs b] have "only_above L h1 h'" .
  with o1 show ?case
    by (rule only_above_trans)
qed

lemma shift_frame:
  "fresh_closed L h \<Longrightarrow> L \<le> n \<Longrightarrow> h_shift fuel h n dx = Some h' \<Longrightarrow> only_above L h h'"
proof (induction fuel arbitrary: h n h')
  case 0
  then show ?case by simp
next
  case (Suc fuel)
  from Suc.prems(3) obtain g nd where g: "get_geom h n = Some g" and
    nd: "node_cell (put_geom h n (g\<lparr>g_x := g_x g - dx\<rparr>)) n = Some nd" and
    a: "h_shift_each fuel (put_geom h n (g\<lparr>g_x := g_x g - dx\<rparr>)) (h_children nd) dx = Some h'"
    by (auto simp: Let_def split: Option.bind_splits)
  let ?h1 = "put_geom h n (g\<lparr>g_x := g_x g - dx\<rparr>)"
  from put_geom_only_above [OF Suc.prems(2) g, of "g\<lparr>g_x := g_x g - dx\<rparr>"]
  have o1: "only_above L h ?h1"
    by simp
  with Suc.prems(1) have f1: "fresh_closed L ?h1"
    by (rule fresh_closed_only_above)
  from fresh_closed_children [OF f1 Suc.prems(2) nd] have cs: "\<forall>c \<in> set (h_children nd). L \<le> c" .
  from shift_each_frame [OF Suc.IH f1 cs a] have "only_above L ?h1 h'" .
  with o1 show ?case
    by (rule only_above_trans)
qed

lemma allocates_refl: "fresh_closed (length h) h"
  by (simp add: fresh_closed_def)

lemma allocates_length:
  assumes "allocates h h'"
  shows "length h \<le> length h'"
proof -
  from assms have "length (take (length h) h') = length h"
    by (simp add: allocates_def)
  then show ?thesis
    by (simp add: min_def split: if_splits)
qed

lemma allocates_trans:
  assumes "allocates h h1" "allocates h1 h2"
  shows "allocates h h2"
proof -
  from assms have l1: "length h \<le> length h1" and l2: "length h1 \<le> length h2"
    by (simp_all add: allocates_length)
  from assms have t1: "take (length h) h1 = h" and t2: "take (length h1) h2 = h1"
    by (simp_all add: allocates_def)
  have "take (length h) h2 = take (length h) (take (length h1) h2)"
    using l1 by (simp add: min_def)
  with t1 t2 have t: "take (length h) h2 = h"
    by simp
  have "fresh_closed (length h) h2"
    unfolding fresh_closed_def
  proof (intro allI impI)
    fix a
    assume a: "a < length h2" "length h \<le> a"
    show "case h2 ! a of FeatureArray fs \<Rightarrow> True
         | NodeCell nd \<Rightarrow> list_all (\<lambda>c. length h \<le> c) (h_children nd)"
    proof (cases "a < length h1")
      case True
      from t2 True have "h2 ! a = h1 ! a"
        by (metis nth_take)
      moreover from assms(1) True a(2) have "case h1 ! a of FeatureArray fs \<Rightarrow> True
         | NodeCell nd \<Rightarrow> list_all (\<lambda>c. length h \<le> c) (h_children nd)"
        by (simp add: allocates_def fresh_closed_def)
      ultimately show ?thesis by simp
    next
      case False
      with assms(2) a(1) have "case h2 ! a of FeatureArray fs \<Rightarrow> True
         | NodeCell nd \<Rightarrow> list_all (\<lambda>c. length h1 \<le> c) (h_children nd)"
        by (simp add: allocates_def fresh_closed_def)
      with l1 show ?thesis
        by (auto simp: list_all_iff split: cell.splits)
    qed
  qed
  with t show ?thesis
    by (simp add: allocates_def)
qed

lemma clone_each_frame:
  assumes single: "\<And>h n par h' p. h_clone fuel h n par = Some (h', p) \<Longrightarrow>
      allocates h h' \<and> p = length h \<and> p < length h'"
  shows "h_clone_each fuel h cs q = Some (h', cs') \<Longrightarrow>
      allocates h h' \<and> (\<forall>c \<in> set cs'. length h \<le> c)"
proof (induction cs arbitrary: h cs')
  case Nil
  then show ?case
    by (simp add: allocates_def allocates_refl)
next
  case (Cons c cs)
  from Cons.prems obtain h1 c' cs1 where
    a: "h_clone fuel h c (Some q) = Some (h1, c')" and
    b: "h_clone_each fuel h1 cs q = Some (h', cs1)" and
    c: "cs' = c' # cs1"
    by (auto split: Option.bind_splits)
  from single [OF a] have a1: "allocates h h1" and c': "c' = length h"
    by simp_all
  from Cons.IH [OF b] have b1: "allocates h1 h'" and cs1: "\<forall>c \<in> set cs1. length h1 \<le> c"
    by simp_all
  from a1 have "length h \<le> length h1"
    by (rule allocates_length)
  with cs1 c' c have "\<forall>c \<in> set cs'. length h \<le> c"
    by auto
  with allocates_trans [OF a1 b1] show ?case
    by simp
qed

lemma clone_frame:
  "h_clone fuel h n par = Some (h', p) \<Longrightarrow> allocates h h' \<and> p = length h \<and> p < length h'"
proof (induction fuel arbitrary: h n par h' p)
  case 0
  then show ?case by simp
next
  case (Suc fuel)
  from Suc.prems obtain nd w h2 cs where
    nd: "node_cell h n = Some nd" and
    w: "h_measureLabel h nd = Some w" and
    a: "h_clone_each fuel (h @ [NodeCell (nd\<lparr>h_children := [],
          h_geom := Some \<lparr>g_x = 0, g_y = 0, g_width = w, g_height = NODE_H, g_parent = par\<rparr>\<rparr>)])
          (h_children nd) (length h) = Some (h2, cs)" and
    h': "h' = put_children h2 (length h) cs" and
    p: "p = length h"
    by (auto simp: Let_def split: Option.bind_splits)
  let ?c = "NodeCell (nd\<lparr>h_children := [],
          h_geom := Some \<lparr>g_x = 0, g_y = 0, g_width = w, g_height = NODE_H, g_parent = par\<rparr>\<rparr>)"
  let ?h1 = "h @ [?c]"
  from clone_each_frame [OF Suc.IH a] have a1: "allocates ?h1 h2"
    and cs: "\<forall>c \<in> set cs. length ?h1 \<le> c"
    by simp_all
  from a1 have t2: "take (Suc (length h)) h2 = ?h1" and f2: "fresh_closed (Suc (length h)) h2"
    by (simp_all add: allocates_def)
  from a1 have l2: "Suc (length h) \<le> length h2"
    using allocates_length by fastforce
  have "take (length h) h2 = take (length h) (take (Suc (length h)) h2)"
    by (simp add: min_def)
  with t2 have t: "take (length h) h2 = h"
    by simp
  from t2 l2 have "h2 ! length h = ?c"
    by (metis lessI nth_append_length nth_take)
  with l2 obtain nd' where pc: "h' = h2[length h := NodeCell nd']" and nd': "h_children nd' = cs"
    by (simp add: h' put_children_def node_cell_def)
  have len: "length h' = length h2"
    by (simp add: pc)
  have take: "take (length h) h' = h"
    by (simp add: pc t)
  have "fresh_closed (length h) h'"
    unfolding fresh_closed_def
  proof (intro allI impI)
    fix a
    assume a: "a < length h'" "length h \<le> a"
    show "case h' ! a of FeatureArray fs \<Rightarrow> True
         | NodeCell nd \<Rightarrow> list_all (\<lambda>c. length h \<le> c) (h_children nd)"
    proof (cases "a = length h")
      case True
      with l2 cs nd' show ?thesis
        by (auto simp: pc list_all_iff)
    next
      case False
      with a have sa: "Suc (length h) \<le> a" and same: "h' ! a = h2 ! a"
        by (simp_all add: pc)
      from f2 a(1) len sa have "case h2 ! a of FeatureArray fs \<Rightarrow> True
         | NodeCell nd \<Rightarrow> list_all (\<lambda>c. Suc (length h) \<le> c) (h_children nd)"
        by (simp add: fresh_closed_def)
      then have "case h2 ! a of FeatureArray fs \<Rightarrow> True
         | NodeCell nd \<Rightarrow> list_all (\<lambda>c. length h \<le> c) (h_children nd)"
        by (cases "h2 ! a") (auto simp: list_all_iff)
      with same show ?thesis
        by simp
    qed
  qed
  with take l2 len p show ?case
    by (simp add: allocates_def)
qed

lemma h_layoutTree_Some:
  "h_layoutTree fuel h rt = Some (h', r) \<longleftrightarrow>
     (\<exists>h1 h2 totalW h3 dx.
        h_clone fuel h rt None = Some (h1, r) \<and>
        h_firstWalk fuel h1 r = Some (h2, totalW) \<and>
        h_secondWalk fuel h2 r 0 0 = Some h3 \<and>
        h_visit fuel h3 r None = Some (Some dx) \<and>
        h_shift fuel h3 r dx = Some h')"
proof (cases "h_clone fuel h rt None")
  case None
  then show ?thesis
    by (simp add: h_layoutTree_def)
next
  case (Some a)
  obtain h1 r1 where a: "a = (h1, r1)"
    by (cases a)
  note c = Some [unfolded a]
  show ?thesis
  proof (cases "h_firstWalk fuel h1 r1")
    case None
    with c show ?thesis
      by (auto simp add: h_layoutTree_def)
  next
    case (Some b)
    obtain h2 totalW where b: "b = (h2, totalW)"
      by (cases b)
    note f = Some [unfolded b]
    show ?thesis
    proof (cases "h_secondWalk fuel h2 r1 0 0")
      case None
      with c f show ?thesis
        by (auto simp add: h_layoutTree_def)
    next
      case (Some h3)
      note s = Some
      show ?thesis
      proof (cases "h_visit fuel h3 r1 None")
        case None
        with c f s show ?thesis
          by (auto simp add: h_layoutTree_def)
      next
        case (Some m)
        with c f s show ?thesis
          by (cases m; cases "h_shift fuel h3 r1 (the m)") (auto simp add: h_layoutTree_def)
      qed
    qed
  qed
qed

lemma h_layoutTree_frame:
  assumes "h_layoutTree fuel h rt = Some (h', r)"
  shows "take (length h) h' = h \<and> r = length h \<and> r < length h' \<and> fresh_closed (length h) h'"
proof -
  from assms obtain h1 h2 totalW h3 dx where
    c: "h_clone fuel h rt None = Some (h1, r)" and
    f: "h_firstWalk fuel h1 r = Some (h2, totalW)" and
    s: "h_secondWalk fuel h2 r 0 0 = Some h3" and
    sh: "h_shift fuel h3 r dx = Some h'"
    unfolding h_layoutTree_Some by blast
  from clone_frame [OF c] have a1: "allocates h h1" and r: "r = length h" and r1: "r < length h1"
    by simp_all
  from a1 have t1: "take (length h) h1 = h" and f1: "fresh_closed (length h) h1"
    by (simp_all add: allocates_def)
  from r have rl: "length h \<le> r"
    by simp
  from firstWalk_frame [OF f1 rl f] have o2: "only_above (length h) h1 h2" .
  with f1 have f2: "fresh_closed (length h) h2"
    by (rule fresh_closed_only_above)
  from secondWalk_frame [OF f2 rl s] have o3: "only_above (length h) h2 h3" .
  with f2 have f3: "fresh_closed (length h) h3"
    by (rule fresh_closed_only_above)
  from shift_frame [OF f3 rl sh] have o4: "only_above (length h) h3 h'" .
  with f3 have f4: "fresh_closed (length h) h'"
    by (rule fresh_closed_only_above)
  from only_above_trans [OF only_above_trans [OF o2 o3] o4] have o: "only_above (length h) h1 h'" .
  then have "take (length h) h' = take (length h) h1"
    by (simp add: only_above_def)
  with only_above_length [OF o] t1 r r1 f4 show ?thesis
    by simp
qed

lemma fold_max_ge: "(a::nat) \<le> fold max xs a"
  by (induction xs arbitrary: a) (auto intro: order_trans [OF max.cobounded2])

lemma fold_max_mem: "(x::nat) \<in> set xs \<Longrightarrow> x \<le> fold max xs a"
proof (induction xs arbitrary: a)
  case Nil
  then show ?case by simp
next
  case (Cons y ys)
  show ?case
  proof (cases "x = y")
    case True
    have "max y a \<le> fold max ys (max y a)"
      by (rule fold_max_ge)
    with True show ?thesis by simp
  next
    case False
    with Cons show ?thesis by simp
  qed
qed

lemma child_height: "c \<in> set cs \<Longrightarrow> node_height (Node l fs i cs) \<le> Suc fuel \<Longrightarrow> node_height c \<le> fuel"
  using fold_max_mem [of "node_height c" "map node_height cs" 0] by auto

lemma feature_array_Some: "feature_array h a = Some fs \<longleftrightarrow> a < length h \<and> h ! a = FeatureArray fs"
  by (auto simp: feature_array_def split: cell.splits)

lemma ext_nth: "take (length h) h' = h \<Longrightarrow> a < length h \<Longrightarrow> h' ! a = h ! a \<and> a < length h'"
  by (metis length_take min_less_iff_conj nth_take)

lemma node_cell_ext:
  "take (length h) h' = h \<Longrightarrow> node_cell h a = Some nd \<Longrightarrow> node_cell h' a = Some nd"
  using ext_nth [of h h' a] by (simp add: node_cell_Some)

lemma feature_array_ext:
  "take (length h) h' = h \<Longrightarrow> feature_array h a = Some fs \<Longrightarrow> feature_array h' a = Some fs"
  using ext_nth [of h h' a] by (simp add: feature_array_Some)

lemma node_at_ext: "take (length h) h' = h \<Longrightarrow> node_at h a t \<Longrightarrow> node_at h' a t"
proof (induction t arbitrary: a)
  case (Node l fs i cs)
  from Node.prems(2) obtain nd where nd: "node_cell h a = Some nd" and
    f: "h_label nd = l" "feature_array h (h_features nd) = Some fs" "h_id nd = i" and
    ch: "list_all2 (node_at h) (h_children nd) cs"
    by (auto split: option.splits)
  from ch have "list_all2 (node_at h') (h_children nd) cs"
    by (rule list.rel_mono_strong) (rule Node.IH [OF _ Node.prems(1)])
  with node_cell_ext [OF Node.prems(1) nd] feature_array_ext [OF Node.prems(1) f(2)] f
  show ?case by simp
qed

lemma pos_at_transfer:
  assumes nodes: "\<And>a nd. L \<le> a \<Longrightarrow> node_cell h a = Some nd \<Longrightarrow>
      \<exists>nd'. node_cell h' a = Some nd' \<and> h_label nd' = h_label nd
        \<and> h_features nd' = h_features nd \<and> h_id nd' = h_id nd
        \<and> h_children nd' = h_children nd
        \<and> (\<forall>g. h_geom nd = Some g \<longrightarrow>
              (\<exists>g'. h_geom nd' = Some g' \<and> g_width g' = g_width g
                 \<and> g_height g' = g_height g \<and> g_parent g' = g_parent g))"
    and feats: "\<And>a fs. feature_array h a = Some fs \<Longrightarrow> feature_array h' a = Some fs"
    and le: "L' \<le> L"
  shows "pos_at L h par r t \<Longrightarrow> pos_at L' h' par r t"
proof (induction t arbitrary: r par)
  case (Node l fs i cs)
  from Node.prems obtain nd g where r: "L \<le> r" and nd: "node_cell h r = Some nd" and
    f: "h_label nd = l" "feature_array h (h_features nd) = Some fs" "h_id nd = i" and
    g: "h_geom nd = Some g" "g_width g = measure_text l fs" "g_height g = NODE_H" "g_parent g = par" and
    ch: "list_all2 (pos_at L h (Some r)) (h_children nd) cs"
    by (auto split: option.splits)
  from nodes [OF r nd] g(1) obtain nd' g' where nd': "node_cell h' r = Some nd'" and
    same: "h_label nd' = h_label nd" "h_features nd' = h_features nd" "h_id nd' = h_id nd"
      "h_children nd' = h_children nd" and
    g': "h_geom nd' = Some g'" "g_width g' = g_width g" "g_height g' = g_height g"
      "g_parent g' = g_parent g"
    by blast
  from ch have "list_all2 (pos_at L' h' (Some r)) (h_children nd) cs"
    by (rule list.rel_mono_strong) (rule Node.IH)
  with r le nd' same g' f g feats [OF f(2)] show ?case
    by simp
qed

lemma pos_at_ext:
  assumes "take (length h) h' = h" "L' \<le> L" "pos_at L h par r t"
  shows "pos_at L' h' par r t"
proof (rule pos_at_transfer [OF _ _ assms(2,3)])
  fix a nd
  assume "node_cell h a = Some nd"
  from node_cell_ext [OF assms(1) this]
  show "\<exists>nd'. node_cell h' a = Some nd' \<and> h_label nd' = h_label nd
        \<and> h_features nd' = h_features nd \<and> h_id nd' = h_id nd
        \<and> h_children nd' = h_children nd
        \<and> (\<forall>g. h_geom nd = Some g \<longrightarrow>
              (\<exists>g'. h_geom nd' = Some g' \<and> g_width g' = g_width g
                 \<and> g_height g' = g_height g \<and> g_parent g' = g_parent g))"
    by simp
next
  fix a fs
  assume "feature_array h a = Some fs"
  then show "feature_array h' a = Some fs"
    by (rule feature_array_ext [OF assms(1)])
qed

lemma node_cell_put_children_other:
  "a \<noteq> p \<Longrightarrow> node_cell (put_children h p cs) a = node_cell h a"
  by (simp add: put_children_def node_cell_def split: option.splits cell.splits)

lemma feature_array_put_children:
  "feature_array (put_children h p cs) a = feature_array h a"
  by (cases "a = p")
     (auto simp: put_children_def feature_array_def node_cell_def split: option.splits cell.splits)

lemma pos_at_put_children:
  assumes "p < L" "pos_at L h par r t"
  shows "pos_at L (put_children h p cs) par r t"
proof (rule pos_at_transfer [OF _ _ order_refl assms(2)])
  fix a nd
  assume "L \<le> a" "node_cell h a = Some nd"
  with assms(1) have "node_cell (put_children h p cs) a = Some nd"
    by (simp add: node_cell_put_children_other)
  then show "\<exists>nd'. node_cell (put_children h p cs) a = Some nd' \<and> h_label nd' = h_label nd
        \<and> h_features nd' = h_features nd \<and> h_id nd' = h_id nd
        \<and> h_children nd' = h_children nd
        \<and> (\<forall>g. h_geom nd = Some g \<longrightarrow>
              (\<exists>g'. h_geom nd' = Some g' \<and> g_width g' = g_width g
                 \<and> g_height g' = g_height g \<and> g_parent g' = g_parent g))"
    by simp
next
  fix a fs
  assume "feature_array h a = Some fs"
  then show "feature_array (put_children h p cs) a = Some fs"
    by (simp add: feature_array_put_children)
qed

lemma skel_node:
  assumes "skel c' = skel (NodeCell nd)"
  shows "\<exists>nd'. c' = NodeCell nd' \<and> h_label nd' = h_label nd
        \<and> h_features nd' = h_features nd \<and> h_id nd' = h_id nd
        \<and> h_children nd' = h_children nd
        \<and> (\<forall>g. h_geom nd = Some g \<longrightarrow>
              (\<exists>g'. h_geom nd' = Some g' \<and> g_width g' = g_width g
                 \<and> g_height g' = g_height g \<and> g_parent g' = g_parent g))"
proof (cases c')
  case (FeatureArray fs)
  with assms show ?thesis
    by (simp add: skel_def)
next
  case (NodeCell nd')
  with assms have eq: "nd'\<lparr>h_geom := map_option (\<lambda>g. g\<lparr>g_x := 0, g_y := 0\<rparr>) (h_geom nd')\<rparr>
      = nd\<lparr>h_geom := map_option (\<lambda>g. g\<lparr>g_x := 0, g_y := 0\<rparr>) (h_geom nd)\<rparr>"
    by (simp add: skel_def)
  from arg_cong [OF eq, of h_label] arg_cong [OF eq, of h_features] arg_cong [OF eq, of h_id]
    arg_cong [OF eq, of h_children]
  have a: "h_label nd' = h_label nd" "h_features nd' = h_features nd" "h_id nd' = h_id nd"
    "h_children nd' = h_children nd"
    by simp_all
  from arg_cong [OF eq, of h_geom]
  have m: "map_option (\<lambda>g. g\<lparr>g_x := 0, g_y := 0\<rparr>) (h_geom nd')
      = map_option (\<lambda>g. g\<lparr>g_x := 0, g_y := 0\<rparr>) (h_geom nd)"
    by simp
  have b: "\<exists>g'. h_geom nd' = Some g' \<and> g_width g' = g_width g
                 \<and> g_height g' = g_height g \<and> g_parent g' = g_parent g"
    if "h_geom nd = Some g" for g
  proof -
    from m that obtain g' where g': "h_geom nd' = Some g'"
      and e: "g'\<lparr>g_x := 0, g_y := 0\<rparr> = g\<lparr>g_x := 0, g_y := 0\<rparr>"
      by (cases "h_geom nd'") auto
    from arg_cong [OF e, of g_width] arg_cong [OF e, of g_height] arg_cong [OF e, of g_parent]
    have "g_width g' = g_width g" "g_height g' = g_height g" "g_parent g' = g_parent g"
      by simp_all
    with g' show ?thesis by simp
  qed
  from NodeCell a b show ?thesis
    by blast
qed

lemma skel_feature: "skel c' = skel (FeatureArray fs) \<Longrightarrow> c' = FeatureArray fs"
  by (cases c') (simp_all add: skel_def)

lemma pos_at_only_above:
  assumes "only_above L h h'" "pos_at L h par r t"
  shows "pos_at L h' par r t"
proof (rule pos_at_transfer [OF _ _ order_refl assms(2)])
  from assms(1) have len: "length h' = length h"
    by (rule only_above_length)
  from assms(1) have sk: "map skel h' = map skel h"
    by (simp add: only_above_def)
  have cell: "skel (h' ! a) = skel (h ! a)" if "a < length h" for a
    using that len arg_cong [OF sk, of "\<lambda>xs. xs ! a"] by simp
  {
    fix a nd
    assume "node_cell h a = Some nd"
    then have a: "a < length h" "h ! a = NodeCell nd"
      by (simp_all add: node_cell_Some)
    from cell [OF a(1)] a(2) have "skel (h' ! a) = skel (NodeCell nd)"
      by simp
    from skel_node [OF this] a(1) len
    show "\<exists>nd'. node_cell h' a = Some nd' \<and> h_label nd' = h_label nd
        \<and> h_features nd' = h_features nd \<and> h_id nd' = h_id nd
        \<and> h_children nd' = h_children nd
        \<and> (\<forall>g. h_geom nd = Some g \<longrightarrow>
              (\<exists>g'. h_geom nd' = Some g' \<and> g_width g' = g_width g
                 \<and> g_height g' = g_height g \<and> g_parent g' = g_parent g))"
      by (auto simp: node_cell_Some)
  }
  {
    fix a fs
    assume "feature_array h a = Some fs"
    then have a: "a < length h" "h ! a = FeatureArray fs"
      by (simp_all add: feature_array_Some)
    from cell [OF a(1)] a(2) have "skel (h' ! a) = skel (FeatureArray fs)"
      by simp
    from skel_feature [OF this] a(1) len show "feature_array h' a = Some fs"
      by (simp add: feature_array_Some)
  }
qed

lemma pos_at_weaken: "L' \<le> L \<Longrightarrow> pos_at L h par r t \<Longrightarrow> pos_at L' h par r t"
  by (rule pos_at_ext [of h h]) simp_all

lemma clone_each_total:
  assumes single: "\<And>c h n par. c \<in> set cs0 \<Longrightarrow> node_at h n c \<Longrightarrow>
      \<exists>h'. h_clone fuel h n par = Some (h', length h) \<and> pos_at (length h) h' par (length h) c"
  shows "list_all2 (node_at h) rs cs \<Longrightarrow> set cs \<subseteq> set cs0 \<Longrightarrow>
      \<exists>h' rs'. h_clone_each fuel h rs p = Some (h', rs')
        \<and> list_all2 (pos_at (length h) h' (Some p)) rs' cs"
proof (induction rs arbitrary: h cs)
  case Nil
  then show ?case by simp
next
  case (Cons r rs)
  from Cons.prems(1) obtain c cs1 where cs: "cs = c # cs1" and nc: "node_at h r c"
    and rest: "list_all2 (node_at h) rs cs1"
    by (auto simp: list_all2_Cons1)
  from Cons.prems(2) cs have c: "c \<in> set cs0" and sub: "set cs1 \<subseteq> set cs0"
    by simp_all
  from single [OF c nc, of "Some p"] obtain h1 where
    a: "h_clone fuel h r (Some p) = Some (h1, length h)" and
    pa: "pos_at (length h) h1 (Some p) (length h) c"
    by auto
  from clone_frame [OF a] have al: "allocates h h1"
    by simp
  then have t1: "take (length h) h1 = h"
    by (simp add: allocates_def)
  from allocates_length [OF al] have l1: "length h \<le> length h1" .
  from rest have "list_all2 (node_at h1) rs cs1"
    by (rule list.rel_mono_strong) (rule node_at_ext [OF t1])
  from Cons.IH [OF this sub] obtain h2 rs' where
    b: "h_clone_each fuel h1 rs p = Some (h2, rs')" and
    pb: "list_all2 (pos_at (length h1) h2 (Some p)) rs' cs1"
    by auto
  from clone_each_frame [OF clone_frame b] have "allocates h1 h2"
    by simp
  then have t2: "take (length h1) h2 = h1"
    by (simp add: allocates_def)
  from pos_at_ext [OF t2 order_refl pa] have pa2: "pos_at (length h) h2 (Some p) (length h) c" .
  from pb have pb2: "list_all2 (pos_at (length h) h2 (Some p)) rs' cs1"
    by (rule list.rel_mono_strong) (rule pos_at_weaken [OF l1])
  from a b pa2 pb2 cs show ?case
    by simp
qed

lemma clone_total:
  "node_height t \<le> fuel \<Longrightarrow> node_at h n t \<Longrightarrow>
     \<exists>h'. h_clone fuel h n par = Some (h', length h) \<and> pos_at (length h) h' par (length h) t"
proof (induction t arbitrary: fuel h n par)
  case (Node l fs i cs)
  from Node.prems(1) obtain f where fuel: "fuel = Suc f"
    by (cases fuel) simp_all
  from Node.prems(2) obtain nd where nd: "node_cell h n = Some nd" and
    fl: "h_label nd = l" and ff: "feature_array h (h_features nd) = Some fs" and
    fi: "h_id nd = i" and ch: "list_all2 (node_at h) (h_children nd) cs"
    by (auto split: option.splits)
  from fl ff have w: "h_measureLabel h nd = Some (measure_text l fs)"
    by (simp add: h_measureLabel_def)
  let ?g = "\<lparr>g_x = 0, g_y = 0, g_width = measure_text l fs, g_height = NODE_H, g_parent = par\<rparr>"
  let ?c = "NodeCell (nd\<lparr>h_children := [], h_geom := Some ?g\<rparr>)"
  let ?h1 = "h @ [?c]"
  have t1: "take (length h) ?h1 = h"
    by simp
  from ch have ch1: "list_all2 (node_at ?h1) (h_children nd) cs"
    by (rule list.rel_mono_strong) (rule node_at_ext [OF t1])
  have single: "\<exists>h'. h_clone f h n par = Some (h', length h) \<and> pos_at (length h) h' par (length h) c"
    if "c \<in> set cs" "node_at h n c" for c h n par
    using that Node.prems(1) fuel by (intro Node.IH) (auto dest: child_height)
  from clone_each_total [OF single ch1 subset_refl, where p = "length h"] obtain h2 rs' where
    a: "h_clone_each f ?h1 (h_children nd) (length h) = Some (h2, rs')" and
    pa: "list_all2 (pos_at (length ?h1) h2 (Some (length h))) rs' cs"
    by auto
  from clone_each_frame [OF clone_frame a] have al2: "allocates ?h1 h2"
    by simp
  then have t2: "take (length ?h1) h2 = ?h1"
    by (simp add: allocates_def)
  from allocates_length [OF al2] have l2: "length ?h1 \<le> length h2" .
  from ext_nth [OF t2, of "length h"] have c2: "h2 ! length h = ?c" and lt: "length h < length h2"
    by simp_all
  let ?h' = "put_children h2 (length h) rs'"
  from c2 lt obtain nd' where h': "?h' = h2[length h := NodeCell nd']" and
    nd': "h_label nd' = l" "h_features nd' = h_features nd" "h_id nd' = i"
      "h_children nd' = rs'" "h_geom nd' = Some ?g"
    using fl fi by (simp add: put_children_def node_cell_def)
  from h' lt have cell: "node_cell ?h' (length h) = Some nd'"
    by (simp add: node_cell_Some)
  have "feature_array ?h1 (h_features nd) = Some fs"
    using ff by (rule feature_array_ext [OF t1])
  then have "feature_array h2 (h_features nd) = Some fs"
    by (rule feature_array_ext [OF t2])
  then have feat: "feature_array ?h' (h_features nd) = Some fs"
    by (simp add: feature_array_put_children)
  have lt1: "length h < length ?h1"
    by simp
  have le: "length h \<le> length ?h1"
    by simp
  from pa have "list_all2 (pos_at (length ?h1) ?h' (Some (length h))) rs' cs"
    by (rule list.rel_mono_strong) (rule pos_at_put_children [OF lt1])
  then have kids: "list_all2 (pos_at (length h) ?h' (Some (length h))) rs' cs"
    by (rule list.rel_mono_strong) (rule pos_at_weaken [OF le])
  have "h_clone fuel h n par = Some (?h', length h)"
    by (simp add: fuel nd w a Let_def)
  moreover have "pos_at (length h) ?h' par (length h) (Node l fs i cs)"
    using cell nd' feat kids by simp
  ultimately show ?case
    by blast
qed

lemma pos_at_cell:
  "pos_at L h par r (Node l fs i cs) \<Longrightarrow>
     \<exists>nd g. L \<le> r \<and> node_cell h r = Some nd \<and> h_geom nd = Some g
       \<and> list_all2 (pos_at L h (Some r)) (h_children nd) cs"
  by (auto split: option.splits)

lemma pos_at_ge: "pos_at L h par r t \<Longrightarrow> L \<le> r"
  by (cases t) simp

lemma pos_at_geom: "pos_at L h par r t \<Longrightarrow> \<exists>g. get_geom h r = Some g"
  by (cases t) (auto simp: get_geom_def split: option.splits)

lemma firstWalk_each_total:
  assumes single: "\<And>c h r par. c \<in> set cs0 \<Longrightarrow> fresh_closed L h \<Longrightarrow> pos_at L h par r c \<Longrightarrow>
      \<exists>h' w. h_firstWalk fuel h r = Some (h', w)"
  shows "list_all2 (pos_at L h par) rs cs \<Longrightarrow> set cs \<subseteq> set cs0 \<Longrightarrow> fresh_closed L h \<Longrightarrow>
      \<exists>h' w. h_firstWalk_each fuel h rs i len ws = Some (h', w)"
proof (induction rs arbitrary: h cs i ws)
  case Nil
  then show ?case by simp
next
  case (Cons r rs)
  from Cons.prems(1) obtain c cs1 where cs: "cs = c # cs1" and pc: "pos_at L h par r c"
    and rest: "list_all2 (pos_at L h par) rs cs1"
    by (auto simp: list_all2_Cons1)
  from Cons.prems(2) cs have c: "c \<in> set cs0" and sub: "set cs1 \<subseteq> set cs0"
    by simp_all
  from single [OF c Cons.prems(3) pc] obtain h1 w1 where a: "h_firstWalk fuel h r = Some (h1, w1)"
    by auto
  from firstWalk_frame [OF Cons.prems(3) pos_at_ge [OF pc] a] have o: "only_above L h h1" .
  from fresh_closed_only_above [OF Cons.prems(3) o] have f1: "fresh_closed L h1" .
  from rest have "list_all2 (pos_at L h1 par) rs cs1"
    by (rule list.rel_mono_strong) (rule pos_at_only_above [OF o])
  from Cons.IH [OF this sub f1] a show ?case
    by (simp add: Let_def)
qed

lemma firstWalk_total:
  "node_height t \<le> fuel \<Longrightarrow> fresh_closed L h \<Longrightarrow> pos_at L h par r t \<Longrightarrow>
     \<exists>h' w. h_firstWalk fuel h r = Some (h', w)"
proof (induction t arbitrary: fuel h r par)
  case (Node l fs i cs)
  from Node.prems(1) obtain f where fuel: "fuel = Suc f"
    by (cases fuel) simp_all
  from pos_at_cell [OF Node.prems(3)] obtain nd g where r: "L \<le> r" and
    nd: "node_cell h r = Some nd" and g: "h_geom nd = Some g" and
    ch: "list_all2 (pos_at L h (Some r)) (h_children nd) cs"
    by auto
  show ?case
  proof (cases "length (h_children nd) = 0")
    case True
    with nd g show ?thesis
      by (simp add: fuel)
  next
    case False
    have "\<exists>h1 ws. h_firstWalk_each f h (h_children nd) 0 (length (h_children nd)) 0 = Some (h1, ws)"
    proof (rule firstWalk_each_total [OF _ ch subset_refl Node.prems(2)])
      fix c h r par
      assume "c \<in> set cs" "fresh_closed L h" "pos_at L h par r c"
      with Node.prems(1) fuel show "\<exists>h' w. h_firstWalk f h r = Some (h', w)"
        by (intro Node.IH) (auto dest: child_height)
    qed
    then obtain h1 ws where
      a: "h_firstWalk_each f h (h_children nd) 0 (length (h_children nd)) 0 = Some (h1, ws)"
      by auto
    from fresh_closed_children [OF Node.prems(2) r nd] have "\<forall>c \<in> set (h_children nd). L \<le> c" .
    from firstWalk_each_frame [OF firstWalk_frame Node.prems(2) this a] have "only_above L h h1" .
    from pos_at_geom [OF pos_at_only_above [OF this Node.prems(3)]] obtain g1 where
      "get_geom h1 r = Some g1"
      by auto
    with False nd g a show ?thesis
      by (simp add: fuel)
  qed
qed

lemma secondWalk_each_total:
  assumes single: "\<And>c h r par ox oy. c \<in> set cs0 \<Longrightarrow> fresh_closed L h \<Longrightarrow>
      pos_at L h par r c \<Longrightarrow> \<exists>h'. h_secondWalk fuel h r ox oy = Some h'"
  shows "list_all2 (pos_at L h par) rs cs \<Longrightarrow> set cs \<subseteq> set cs0 \<Longrightarrow> fresh_closed L h \<Longrightarrow>
      pos_at L h pn n tn \<Longrightarrow> \<exists>h'. h_secondWalk_each fuel h n rs ox oy = Some h'"
proof (induction rs arbitrary: h cs)
  case Nil
  then show ?case by simp
next
  case (Cons r rs)
  from Cons.prems(1) obtain c cs1 where cs: "cs = c # cs1" and pc: "pos_at L h par r c"
    and rest: "list_all2 (pos_at L h par) rs cs1"
    by (auto simp: list_all2_Cons1)
  from Cons.prems(2) cs have c: "c \<in> set cs0" and sub: "set cs1 \<subseteq> set cs0"
    by simp_all
  from pos_at_geom [OF pc] obtain gc where gc: "get_geom h r = Some gc"
    by auto
  from pos_at_geom [OF Cons.prems(4)] obtain gn where gn: "get_geom h n = Some gn"
    by auto
  from single [OF c Cons.prems(3) pc] obtain h1 where
    a: "h_secondWalk fuel h r (ox + g_x gc - g_x gc + 0) (oy + g_height gn + V_GAP) = Some h1"
    by blast
  from secondWalk_frame [OF Cons.prems(3) pos_at_ge [OF pc] a] have o: "only_above L h h1" .
  from fresh_closed_only_above [OF Cons.prems(3) o] have f1: "fresh_closed L h1" .
  from rest have "list_all2 (pos_at L h1 par) rs cs1"
    by (rule list.rel_mono_strong) (rule pos_at_only_above [OF o])
  from Cons.IH [OF this sub f1 pos_at_only_above [OF o Cons.prems(4)]] gc gn a show ?case
    by simp
qed

lemma secondWalk_total:
  "node_height t \<le> fuel \<Longrightarrow> fresh_closed L h \<Longrightarrow> pos_at L h par r t \<Longrightarrow>
     \<exists>h'. h_secondWalk fuel h r ox oy = Some h'"
proof (induction t arbitrary: fuel h r par ox oy)
  case (Node l fs i cs)
  from Node.prems(1) obtain f where fuel: "fuel = Suc f"
    by (cases fuel) simp_all
  from pos_at_geom [OF Node.prems(3)] obtain g where g: "get_geom h r = Some g"
    by auto
  let ?h1 = "put_geom h r (g\<lparr>g_x := g_x g + ox, g_y := oy\<rparr>)"
  from put_geom_only_above [OF pos_at_ge [OF Node.prems(3)] g, of "g\<lparr>g_x := g_x g + ox, g_y := oy\<rparr>"]
  have o: "only_above L h ?h1"
    by simp
  from fresh_closed_only_above [OF Node.prems(2) o] have f1: "fresh_closed L ?h1" .
  from pos_at_only_above [OF o Node.prems(3)] have p1: "pos_at L ?h1 par r (Node l fs i cs)" .
  from pos_at_cell [OF p1] obtain nd where nd: "node_cell ?h1 r = Some nd" and
    ch: "list_all2 (pos_at L ?h1 (Some r)) (h_children nd) cs"
    by auto
  have "\<exists>h'. h_secondWalk_each f ?h1 r (h_children nd) ox oy = Some h'"
  proof (rule secondWalk_each_total [OF _ ch subset_refl f1 p1])
    fix c h r par ox oy
    assume "c \<in> set cs" "fresh_closed L h" "pos_at L h par r c"
    with Node.prems(1) fuel show "\<exists>h'. h_secondWalk f h r ox oy = Some h'"
      by (intro Node.IH) (auto dest: child_height)
  qed
  with g nd show ?case
    by (simp add: fuel Let_def)
qed

lemma shift_each_total:
  assumes single: "\<And>c h r par. c \<in> set cs0 \<Longrightarrow> fresh_closed L h \<Longrightarrow>
      pos_at L h par r c \<Longrightarrow> \<exists>h'. h_shift fuel h r dx = Some h'"
  shows "list_all2 (pos_at L h par) rs cs \<Longrightarrow> set cs \<subseteq> set cs0 \<Longrightarrow> fresh_closed L h \<Longrightarrow>
      \<exists>h'. h_shift_each fuel h rs dx = Some h'"
proof (induction rs arbitrary: h cs)
  case Nil
  then show ?case by simp
next
  case (Cons r rs)
  from Cons.prems(1) obtain c cs1 where cs: "cs = c # cs1" and pc: "pos_at L h par r c"
    and rest: "list_all2 (pos_at L h par) rs cs1"
    by (auto simp: list_all2_Cons1)
  from Cons.prems(2) cs have c: "c \<in> set cs0" and sub: "set cs1 \<subseteq> set cs0"
    by simp_all
  from single [OF c Cons.prems(3) pc] obtain h1 where a: "h_shift fuel h r dx = Some h1"
    by blast
  from shift_frame [OF Cons.prems(3) pos_at_ge [OF pc] a] have o: "only_above L h h1" .
  from fresh_closed_only_above [OF Cons.prems(3) o] have f1: "fresh_closed L h1" .
  from rest have "list_all2 (pos_at L h1 par) rs cs1"
    by (rule list.rel_mono_strong) (rule pos_at_only_above [OF o])
  from Cons.IH [OF this sub f1] a show ?case
    by simp
qed

lemma shift_total:
  "node_height t \<le> fuel \<Longrightarrow> fresh_closed L h \<Longrightarrow> pos_at L h par r t \<Longrightarrow>
     \<exists>h'. h_shift fuel h r dx = Some h'"
proof (induction t arbitrary: fuel h r par)
  case (Node l fs i cs)
  from Node.prems(1) obtain f where fuel: "fuel = Suc f"
    by (cases fuel) simp_all
  from pos_at_geom [OF Node.prems(3)] obtain g where g: "get_geom h r = Some g"
    by auto
  let ?h1 = "put_geom h r (g\<lparr>g_x := g_x g - dx\<rparr>)"
  from put_geom_only_above [OF pos_at_ge [OF Node.prems(3)] g, of "g\<lparr>g_x := g_x g - dx\<rparr>"]
  have o: "only_above L h ?h1"
    by simp
  from fresh_closed_only_above [OF Node.prems(2) o] have f1: "fresh_closed L ?h1" .
  from pos_at_only_above [OF o Node.prems(3)] have p1: "pos_at L ?h1 par r (Node l fs i cs)" .
  from pos_at_cell [OF p1] obtain nd where nd: "node_cell ?h1 r = Some nd" and
    ch: "list_all2 (pos_at L ?h1 (Some r)) (h_children nd) cs"
    by auto
  have "\<exists>h'. h_shift_each f ?h1 (h_children nd) dx = Some h'"
  proof (rule shift_each_total [OF _ ch subset_refl f1])
    fix c h r par
    assume "c \<in> set cs" "fresh_closed L h" "pos_at L h par r c"
    with Node.prems(1) fuel show "\<exists>h'. h_shift f h r dx = Some h'"
      by (intro Node.IH) (auto dest: child_height)
  qed
  with g nd show ?case
    by (simp add: fuel Let_def)
qed

lemma visit_each_total:
  assumes single: "\<And>c r par m. c \<in> set cs0 \<Longrightarrow> pos_at L h par r c \<Longrightarrow>
      \<exists>dx. h_visit fuel h r m = Some (Some dx)"
  shows "list_all2 (pos_at L h par) rs cs \<Longrightarrow> set cs \<subseteq> set cs0 \<Longrightarrow>
      \<exists>dx. h_visit_each fuel h rs (Some m) = Some (Some dx)"
proof (induction rs arbitrary: cs m)
  case Nil
  then show ?case by simp
next
  case (Cons r rs)
  from Cons.prems(1) obtain c cs1 where cs: "cs = c # cs1" and pc: "pos_at L h par r c"
    and rest: "list_all2 (pos_at L h par) rs cs1"
    by (auto simp: list_all2_Cons1)
  from Cons.prems(2) cs have c: "c \<in> set cs0" and sub: "set cs1 \<subseteq> set cs0"
    by simp_all
  from single [OF c pc] obtain dx where a: "h_visit fuel h r (Some m) = Some (Some dx)"
    by blast
  from Cons.IH [OF rest sub] a show ?case
    by simp
qed

lemma visit_total:
  "node_height t \<le> fuel \<Longrightarrow> pos_at L h par r t \<Longrightarrow> \<exists>dx. h_visit fuel h r m = Some (Some dx)"
proof (induction t arbitrary: fuel r par m)
  case (Node l fs i cs)
  from Node.prems(1) obtain f where fuel: "fuel = Suc f"
    by (cases fuel) simp_all
  from pos_at_cell [OF Node.prems(2)] obtain nd g where
    nd: "node_cell h r = Some nd" and g: "h_geom nd = Some g" and
    ch: "list_all2 (pos_at L h (Some r)) (h_children nd) cs"
    by auto
  obtain m1 where m1: "min_acc m (g_x g) = Some m1"
    by (cases m) (simp_all add: min_acc_def)
  have "\<exists>dx. h_visit_each f h (h_children nd) (Some m1) = Some (Some dx)"
  proof (rule visit_each_total [OF _ ch subset_refl])
    fix c r par m
    assume "c \<in> set cs" "pos_at L h par r c"
    with Node.prems(1) fuel show "\<exists>dx. h_visit f h r m = Some (Some dx)"
      by (intro Node.IH) (auto dest: child_height)
  qed
  with nd g m1 show ?case
    by (simp add: fuel get_geom_def)
qed

text \<open>
  C9. \<open>layoutTree\<close> leaves its input as it was. Whatever the store and the fuel, when
  \<open>layoutTree\<close> returns, every cell that existed before the call is unchanged (so every
  input node has its label, features, id and children, and every features array its
  contents), and the root it returns is a new cell whose descendants are new cells.
  When the store holds a tree \<open>t\<close> at \<open>rt\<close> and the fuel covers its height, \<open>layoutTree\<close>
  returns; the store still holds \<open>t\<close> at \<open>rt\<close>, and holds at the returned root, in new
  cells only, a copy of \<open>t\<close> with geometry and parent references.
\<close>

theorem layoutTree_leaves_input:
  "(\<forall>h' r. h_layoutTree fuel h rt = Some (h', r) \<longrightarrow>
       take (length h) h' = h \<and> r = length h \<and> r < length h' \<and> fresh_closed (length h) h')
   \<and> (node_at h rt t \<and> node_height t \<le> fuel \<longrightarrow>
       (\<exists>h' r. h_layoutTree fuel h rt = Some (h', r) \<and> take (length h) h' = h
          \<and> node_at h' rt t \<and> pos_at (length h) h' None r t))"
proof (rule conjI)
  show "\<forall>h' r. h_layoutTree fuel h rt = Some (h', r) \<longrightarrow>
       take (length h) h' = h \<and> r = length h \<and> r < length h' \<and> fresh_closed (length h) h'"
  proof (intro allI impI)
    fix h' r
    assume "h_layoutTree fuel h rt = Some (h', r)"
    then show "take (length h) h' = h \<and> r = length h \<and> r < length h'
        \<and> fresh_closed (length h) h'"
      by (rule h_layoutTree_frame)
  qed
next
  show "node_at h rt t \<and> node_height t \<le> fuel \<longrightarrow>
       (\<exists>h' r. h_layoutTree fuel h rt = Some (h', r) \<and> take (length h) h' = h
          \<and> node_at h' rt t \<and> pos_at (length h) h' None r t)"
  proof
  assume a: "node_at h rt t \<and> node_height t \<le> fuel"
  let ?L = "length h"
  from a have na: "node_at h rt t" and fuel: "node_height t \<le> fuel"
    by simp_all
  from clone_total [OF fuel na, of None] obtain h1 where
    c: "h_clone fuel h rt None = Some (h1, ?L)" and p1: "pos_at ?L h1 None ?L t"
    by auto
  from clone_frame [OF c] have f1: "fresh_closed ?L h1"
    by (simp add: allocates_def)
  from firstWalk_total [OF fuel f1 p1] obtain h2 w where f: "h_firstWalk fuel h1 ?L = Some (h2, w)"
    by auto
  from firstWalk_frame [OF f1 order_refl f] have o2: "only_above ?L h1 h2" .
  from pos_at_only_above [OF o2 p1] have p2: "pos_at ?L h2 None ?L t" .
  from fresh_closed_only_above [OF f1 o2] have f2: "fresh_closed ?L h2" .
  from secondWalk_total [OF fuel f2 p2] obtain h3 where s: "h_secondWalk fuel h2 ?L 0 0 = Some h3"
    by auto
  from secondWalk_frame [OF f2 order_refl s] have o3: "only_above ?L h2 h3" .
  from pos_at_only_above [OF o3 p2] have p3: "pos_at ?L h3 None ?L t" .
  from fresh_closed_only_above [OF f2 o3] have f3: "fresh_closed ?L h3" .
  from visit_total [OF fuel p3] obtain dx where v: "h_visit fuel h3 ?L None = Some (Some dx)"
    by auto
  from shift_total [OF fuel f3 p3] obtain h4 where sh: "h_shift fuel h3 ?L dx = Some h4"
    by auto
  from shift_frame [OF f3 order_refl sh] have o4: "only_above ?L h3 h4" .
  from pos_at_only_above [OF o4 p3] have p4: "pos_at ?L h4 None ?L t" .
  from c f s v sh have res: "h_layoutTree fuel h rt = Some (h4, ?L)"
    unfolding h_layoutTree_Some by blast
  from h_layoutTree_frame [OF res] have t4: "take ?L h4 = h"
    by simp
  from node_at_ext [OF t4 na] have "node_at h4 rt t" .
  with res t4 p4
  show "\<exists>h' r. h_layoutTree fuel h rt = Some (h', r) \<and> take (length h) h' = h
          \<and> node_at h' rt t \<and> pos_at (length h) h' None r t"
    by blast
  qed
qed

theorem layoutTree_leaves_input_witness:
  "node_at
     [FeatureArray [], NodeCell \<lparr>h_label = ''b'', h_features = 0, h_id = None, h_children = [], h_geom = None\<rparr>,
      FeatureArray [Feature Plus ''WH''],
      NodeCell \<lparr>h_label = ''A long label indeed'', h_features = 2, h_id = Some ''wh'',
                 h_children = [1], h_geom = None\<rparr>] 3
     (Node ''A long label indeed'' [Feature Plus ''WH''] (Some ''wh'') [Node ''b'' [] None []])
   \<and> h_layoutTree 2
     [FeatureArray [], NodeCell \<lparr>h_label = ''b'', h_features = 0, h_id = None, h_children = [], h_geom = None\<rparr>,
      FeatureArray [Feature Plus ''WH''],
      NodeCell \<lparr>h_label = ''A long label indeed'', h_features = 2, h_id = Some ''wh'',
                 h_children = [1], h_geom = None\<rparr>] 3
     = Some
        ([FeatureArray [], NodeCell \<lparr>h_label = ''b'', h_features = 0, h_id = None, h_children = [], h_geom = None\<rparr>,
          FeatureArray [Feature Plus ''WH''],
          NodeCell \<lparr>h_label = ''A long label indeed'', h_features = 2, h_id = Some ''wh'',
                     h_children = [1], h_geom = None\<rparr>,
          NodeCell \<lparr>h_label = ''A long label indeed'', h_features = 2, h_id = Some ''wh'',
                     h_children = [5],
                     h_geom = Some \<lparr>g_x = 0, g_y = 0, g_width = 212, g_height = 22, g_parent = None\<rparr>\<rparr>,
          NodeCell \<lparr>h_label = ''b'', h_features = 0, h_id = None, h_children = [],
                     h_geom = Some \<lparr>g_x = 88, g_y = 50, g_width = 36, g_height = 22, g_parent = Some 4\<rparr>\<rparr>],
         4)
   \<and> layoutTree (Node ''A long label indeed'' [Feature Plus ''WH''] (Some ''wh'') [Node ''b'' [] None []])
     = Positioned ''A long label indeed'' [Feature Plus ''WH''] (Some ''wh'') 0 0 212 22
         [Positioned ''b'' [] None 88 50 36 22 []]"
proof -
  let ?h = "[FeatureArray [], NodeCell \<lparr>h_label = ''b'', h_features = 0, h_id = None, h_children = [], h_geom = None\<rparr>,
      FeatureArray [Feature Plus ''WH''],
      NodeCell \<lparr>h_label = ''A long label indeed'', h_features = 2, h_id = Some ''wh'',
                 h_children = [1], h_geom = None\<rparr>]"
  let ?t = "Node ''A long label indeed'' [Feature Plus ''WH''] (Some ''wh'') [Node ''b'' [] None []]"
  let ?h' = "?h @ [NodeCell \<lparr>h_label = ''A long label indeed'', h_features = 2, h_id = Some ''wh'',
                     h_children = [5],
                     h_geom = Some \<lparr>g_x = 0, g_y = 0, g_width = 212, g_height = 22, g_parent = None\<rparr>\<rparr>,
          NodeCell \<lparr>h_label = ''b'', h_features = 0, h_id = None, h_children = [],
                     h_geom = Some \<lparr>g_x = 88, g_y = 50, g_width = 36, g_height = 22, g_parent = Some 4\<rparr>\<rparr>]"
  have a: "node_at ?h 3 ?t"
    by code_simp
  have b: "node_height ?t \<le> 2"
    by code_simp
  have c: "h_layoutTree 2 ?h 3 = Some (?h', 4)"
    by code_simp
  have d: "layoutTree ?t = Positioned ''A long label indeed'' [Feature Plus ''WH''] (Some ''wh'') 0 0 212 22
         [Positioned ''b'' [] None 88 50 36 22 []]"
    by code_simp
  from layoutTree_leaves_input [of 2 ?h 3 ?t, THEN conjunct1, rule_format, OF c]
  have e: "take (length ?h) ?h' = ?h"
    by simp
  from layoutTree_leaves_input [of 2 ?h 3 ?t, THEN conjunct2] a b
  have f: "\<exists>h' r. h_layoutTree 2 ?h 3 = Some (h', r)"
    by blast
  from a c d e f show ?thesis
    by simp
qed

end
